theory Spec2Isabelle
  imports Main
begin

section \<open>Data model of \<open>production_line.py\<close>\<close>

text \<open>
  \<open>ProductionStats\<close> (lines 19-30): four counters and the list of buffer snapshots.
  Python integers are unbounded, so the counters are \<open>int\<close>.
\<close>

record ProductionStats =
  total_produced :: int
  total_consumed :: int
  producer_waits :: int
  consumer_waits :: int
  buffer_snapshots :: "int list"

text \<open>
  A piece is the string \<open>f"P{producer_id}-T{timestep}"\<close> of line 136; it is kept as the
  pair of numbers the string is printed from.
\<close>

datatype piece = Piece (maker: nat) (tstep: int)

text \<open>
  The threads of a run: producer \<open>i\<close> runs \<open>producer_task(i)\<close>, consumer \<open>i\<close> runs
  \<open>consumer_task(i)\<close>, and the main thread runs \<open>wait_completion\<close> after \<open>start\<close>.
\<close>

datatype tid = Producer nat | Consumer nat | Main

text \<open>
  Control points. \<open>should_continue\<close> (lines 112-114) reads \<open>self.running\<close>, and only when
  it is true calls \<open>get_current_timestep\<close>, which takes \<open>timestep_lock\<close>, reads the counter
  and releases the lock.
\<close>

datatype sc_pc = SC_Running | SC_Lock | SC_Read

text \<open>Control points of \<open>producer_task\<close> (lines 123-155), in source order.\<close>

datatype ppc =
    P_While sc_pc     \<comment> \<open>line 123: \<open>while self.should_continue()\<close>\<close>
  | P_Acquire         \<comment> \<open>line 125: \<open>self.empty_slots.acquire()\<close>\<close>
  | P_Recheck sc_pc   \<comment> \<open>line 127: \<open>if not self.should_continue()\<close>\<close>
  | P_GiveBack        \<comment> \<open>lines 128-129: \<open>self.empty_slots.release(); break\<close>\<close>
  | P_Mutex           \<comment> \<open>line 132: \<open>with self.mutex\<close>, entry\<close>
  | P_Test            \<comment> \<open>line 133: \<open>if len(self.buffer) < self.buffer_capacity\<close>\<close>
  | P_IncLock         \<comment> \<open>line 135 calling line 108: \<open>with self.timestep_lock\<close>, entry\<close>
  | P_Inc             \<comment> \<open>lines 109-110: increment, return, leave \<open>timestep_lock\<close>\<close>
  | P_Append int      \<comment> \<open>lines 136-137: \<open>self.buffer.append(piece_id)\<close>\<close>
  | P_StatsLock int   \<comment> \<open>line 140: \<open>with self.stats_lock\<close>, entry\<close>
  | P_Record int      \<comment> \<open>lines 141-145: count, snapshot, leave \<open>stats_lock\<close>\<close>
  | P_FullLock        \<comment> \<open>line 148: \<open>with self.stats_lock\<close>, entry\<close>
  | P_FullRecord      \<comment> \<open>line 149: \<open>self.stats.producer_waits += 1\<close>, leave \<open>stats_lock\<close>\<close>
  | P_Unlock          \<comment> \<open>end of the block of line 132: leave \<open>mutex\<close>\<close>
  | P_Signal          \<comment> \<open>lines 152-155: \<open>self.filled_slots.release()\<close>, sleep\<close>
  | P_Done            \<comment> \<open>the task has returned\<close>

text \<open>Control points of \<open>consumer_task\<close> (lines 164-190), in source order.\<close>

datatype cpc =
    C_While sc_pc     \<comment> \<open>line 164\<close>
  | C_Acquire         \<comment> \<open>line 166: \<open>self.filled_slots.acquire()\<close>\<close>
  | C_Recheck sc_pc   \<comment> \<open>line 168\<close>
  | C_GiveBack        \<comment> \<open>lines 169-170: \<open>self.filled_slots.release(); break\<close>\<close>
  | C_Mutex           \<comment> \<open>line 173: \<open>with self.mutex\<close>, entry\<close>
  | C_Test            \<comment> \<open>line 174: \<open>if len(self.buffer) > 0\<close>\<close>
  | C_Pop             \<comment> \<open>line 176: \<open>piece_id = self.buffer.pop(0)\<close>\<close>
  | C_StatsLock piece \<comment> \<open>line 179: \<open>with self.stats_lock\<close>, entry\<close>
  | C_Record piece    \<comment> \<open>line 180: \<open>self.stats.total_consumed += 1\<close>, leave \<open>stats_lock\<close>\<close>
  | C_EmptyLock       \<comment> \<open>line 183: \<open>with self.stats_lock\<close>, entry\<close>
  | C_EmptyRecord     \<comment> \<open>line 184: \<open>self.stats.consumer_waits += 1\<close>, leave \<open>stats_lock\<close>\<close>
  | C_Unlock          \<comment> \<open>end of the block of line 173: leave \<open>mutex\<close>\<close>
  | C_Signal          \<comment> \<open>lines 187-190: \<open>self.empty_slots.release()\<close>, sleep\<close>
  | C_Done            \<comment> \<open>the task has returned\<close>

text \<open>Control points of \<open>wait_completion\<close> (lines 224-242).\<close>

datatype wpc =
    W_Poll            \<comment> \<open>line 224 calling line 103: \<open>with self.timestep_lock\<close>, entry\<close>
  | W_PollRead        \<comment> \<open>lines 104, 224-225: read, leave the lock, compare, sleep\<close>
  | W_Stop            \<comment> \<open>line 228: \<open>self.running = False\<close>\<close>
  | W_RelEmpty int    \<comment> \<open>lines 231-232: the loop over \<open>range(self.num_producers)\<close>\<close>
  | W_RelFilled int   \<comment> \<open>lines 233-234: the loop over \<open>range(self.num_consumers)\<close>\<close>
  | W_JoinProducers int \<comment> \<open>lines 237-238: \<open>thread.join(timeout=1.0)\<close>, producer by producer\<close>
  | W_JoinConsumers int \<comment> \<open>lines 239-240: \<open>thread.join(timeout=1.0)\<close>, consumer by consumer\<close>
  | W_Done            \<comment> \<open>\<open>wait_completion\<close> has returned\<close>

text \<open>
  The object \<open>self\<close> of class \<open>ProductionLine\<close> (lines 64-99), with the control point of
  every thread. A lock is \<open>None\<close> when free and \<open>Some t\<close> when thread \<open>t\<close> holds it; a semaphore
  is its counter. The thread lists and the wall-clock fields \<open>start_time\<close>, \<open>end_time\<close> are
  left out: no control decision reads them.
\<close>

record ProductionLine =
  buffer_capacity :: int
  num_producers :: int
  num_consumers :: int
  total_timesteps :: int
  buffer :: "piece list"
  mutex :: "tid option"
  empty_slots :: nat
  filled_slots :: nat
  current_timestep :: int
  running :: bool
  timestep_lock :: "tid option"
  stats :: ProductionStats
  stats_lock :: "tid option"
  snapshot_interval :: int
  producer_pc :: "nat \<Rightarrow> ppc"
  consumer_pc :: "nat \<Rightarrow> cpc"
  main_pc :: wpc

section \<open>Construction (\<open>__init__\<close>, lines 39-99)\<close>

datatype violation =
    BufferCapacityMin   \<comment> \<open>line 54\<close>
  | ProducersMin        \<comment> \<open>line 56\<close>
  | ConsumersMin int    \<comment> \<open>line 59, the message prints \<open>min_consumers\<close>\<close>
  | TimestepsMin        \<comment> \<open>line 61\<close>
  | SemaphoreInitial    \<comment> \<open>\<open>threading.Semaphore\<close> refuses a negative initial value\<close>

datatype error = ValueError violation | OverflowError

text \<open>\<open>int.bit_length()\<close> of a non-negative integer.\<close>

function bit_length :: "int \<Rightarrow> nat" where
  "bit_length n = (if n \<le> 0 then 0 else Suc (bit_length (n div 2)))"
  by pat_completeness auto
termination
  by (relation "measure nat") auto

declare bit_length.simps [simp del]

text \<open>
  Rounding of a non-negative integer mantissa to the 53 significant bits of a double,
  to nearest, ties to even: the result \<open>(q, s)\<close> stands for \<open>q * 2 ^ s\<close>.
\<close>

definition round53 :: "int \<Rightarrow> int \<times> nat" where
  "round53 m =
     (let n = bit_length m in
      if n \<le> 53 then (m, 0)
      else let s = n - 53; q = m div 2 ^ s; r = m mod 2 ^ s; h = 2 ^ (s - 1)
           in (if h < r \<or> (r = h \<and> odd q) then q + 1 else q, s))"

text \<open>
  Line 57, \<open>int(num_producers * 1.1)\<close>, for \<open>num_producers \<ge> 0\<close> (line 56 has raised
  otherwise). The integer is converted to a double (\<open>OverflowError\<close> when the rounded
  value needs more than 1024 bits, that is, lies beyond the largest double), multiplied by
  the double \<open>1.1 = 4953959590107546 * 2^-52\<close> with one rounding, and \<open>int\<close> truncates
  (\<open>OverflowError\<close> when the product is infinite).
\<close>

definition min_consumers_of :: "int \<Rightarrow> error + int" where
  "min_consumers_of p =
     (case round53 p of (a, sa) \<Rightarrow>
        if 1024 < bit_length a + sa then Inl OverflowError
        else (case round53 (a * 4953959590107546) of (b, sb) \<Rightarrow>
          if 1076 < bit_length b + sa + sb then Inl OverflowError
          else Inr (if 52 \<le> sa + sb then b * 2 ^ (sa + sb - 52)
                    else b div 2 ^ (52 - (sa + sb)))))"

text \<open>Lines 53-61: the first violated minimum raises.\<close>

definition validate_parameters :: "int \<Rightarrow> int \<Rightarrow> int \<Rightarrow> int \<Rightarrow> error option" where
  "validate_parameters cap np nc tt =
     (if cap < 1000 then Some (ValueError BufferCapacityMin)
      else if np < 200 then Some (ValueError ProducersMin)
      else (case min_consumers_of np of
              Inl e \<Rightarrow> Some e
            | Inr m \<Rightarrow>
                if nc < m then Some (ValueError (ConsumersMin m))
                else if tt < 1000000 then Some (ValueError TimestepsMin)
                else None))"

text \<open>
  The object after \<open>__init__\<close> and \<open>start\<close>: every worker thread at the head of its loop,
  the main thread at the head of \<open>wait_completion\<close>. A thread that \<open>start\<close> has not
  spawned yet is a thread that has not taken a step.
\<close>

definition new_line :: "int \<Rightarrow> int \<Rightarrow> int \<Rightarrow> int \<Rightarrow> ProductionLine" where
  "new_line cap np nc tt =
     \<lparr> buffer_capacity = cap, num_producers = np, num_consumers = nc,
       total_timesteps = tt, buffer = [], mutex = None,
       empty_slots = nat cap, filled_slots = 0,
       current_timestep = 0, running = True, timestep_lock = None,
       stats = \<lparr> total_produced = 0, total_consumed = 0, producer_waits = 0,
                 consumer_waits = 0, buffer_snapshots = [] \<rparr>,
       stats_lock = None,
       snapshot_interval = max 1 (tt div 100),
       producer_pc = (\<lambda>_. P_While SC_Running),
       consumer_pc = (\<lambda>_. C_While SC_Running),
       main_pc = W_Poll \<rparr>"

definition ProductionLine_init ::
  "int \<Rightarrow> int \<Rightarrow> int \<Rightarrow> int \<Rightarrow> bool \<Rightarrow> error + ProductionLine" where
  "ProductionLine_init cap np nc tt validate =
     (case (if validate then validate_parameters cap np nc tt else None) of
        Some e \<Rightarrow> Inl e
      | None \<Rightarrow>
          if cap < 0 then Inl (ValueError SemaphoreInitial)
          else Inr (new_line cap np nc tt))"

section \<open>The threads, one atomic action at a time\<close>

text \<open>
  A step of a thread is \<open>None\<close> when the thread is blocked (a lock held by another thread,
  a semaphore at zero) or has returned. \<open>with lock:\<close> is two actions: taking the lock, and
  the body together with the release. Every access to \<open>current_timestep\<close>, \<open>stats\<close> and
  \<open>buffer\<close> by a worker happens under the lock that guards it, so the body is atomic for
  every other thread.
\<close>

text \<open>
  \<open>should_continue\<close> (lines 112-114) with \<open>get_current_timestep\<close> (lines 101-104) inlined:
  the result is the next control point inside the call, or the returned boolean.
\<close>

definition should_continue_step ::
  "tid \<Rightarrow> sc_pc \<Rightarrow> ProductionLine \<Rightarrow> ((sc_pc + bool) \<times> ProductionLine) option" where
  "should_continue_step t q l =
     (case q of
        SC_Running \<Rightarrow> Some (if running l then Inl SC_Lock else Inr False, l)
      | SC_Lock \<Rightarrow>
          if timestep_lock l = None then Some (Inl SC_Read, l\<lparr>timestep_lock := Some t\<rparr>)
          else None
      | SC_Read \<Rightarrow>
          Some (Inr (current_timestep l < total_timesteps l), l\<lparr>timestep_lock := None\<rparr>))"

definition set_ppc :: "nat \<Rightarrow> ppc \<Rightarrow> ProductionLine \<Rightarrow> ProductionLine" where
  "set_ppc i c l = l\<lparr>producer_pc := (producer_pc l)(i := c)\<rparr>"

definition set_cpc :: "nat \<Rightarrow> cpc \<Rightarrow> ProductionLine \<Rightarrow> ProductionLine" where
  "set_cpc i c l = l\<lparr>consumer_pc := (consumer_pc l)(i := c)\<rparr>"

text \<open>\<open>producer_task(i)\<close>, lines 116-155.\<close>

definition producer_step :: "nat \<Rightarrow> ProductionLine \<Rightarrow> ProductionLine option" where
  "producer_step i l =
     (case producer_pc l i of
        P_While q \<Rightarrow>
          (case should_continue_step (Producer i) q l of
             None \<Rightarrow> None
           | Some (Inl q', l') \<Rightarrow> Some (set_ppc i (P_While q') l')
           | Some (Inr b, l') \<Rightarrow> Some (set_ppc i (if b then P_Acquire else P_Done) l'))
      | P_Acquire \<Rightarrow>
          if 0 < empty_slots l
          then Some (set_ppc i (P_Recheck SC_Running) (l\<lparr>empty_slots := empty_slots l - 1\<rparr>))
          else None
      | P_Recheck q \<Rightarrow>
          (case should_continue_step (Producer i) q l of
             None \<Rightarrow> None
           | Some (Inl q', l') \<Rightarrow> Some (set_ppc i (P_Recheck q') l')
           | Some (Inr b, l') \<Rightarrow> Some (set_ppc i (if b then P_Mutex else P_GiveBack) l'))
      | P_GiveBack \<Rightarrow>
          Some (set_ppc i P_Done (l\<lparr>empty_slots := empty_slots l + 1\<rparr>))
      | P_Mutex \<Rightarrow>
          if mutex l = None then Some (set_ppc i P_Test (l\<lparr>mutex := Some (Producer i)\<rparr>))
          else None
      | P_Test \<Rightarrow>
          Some (set_ppc i
            (if int (length (buffer l)) < buffer_capacity l then P_IncLock else P_FullLock) l)
      | P_IncLock \<Rightarrow>
          if timestep_lock l = None
          then Some (set_ppc i P_Inc (l\<lparr>timestep_lock := Some (Producer i)\<rparr>))
          else None
      | P_Inc \<Rightarrow>
          Some (set_ppc i (P_Append (current_timestep l + 1))
            (l\<lparr>current_timestep := current_timestep l + 1, timestep_lock := None\<rparr>))
      | P_Append ts \<Rightarrow>
          Some (set_ppc i (P_StatsLock ts) (l\<lparr>buffer := buffer l @ [Piece i ts]\<rparr>))
      | P_StatsLock ts \<Rightarrow>
          if stats_lock l = None
          then Some (set_ppc i (P_Record ts) (l\<lparr>stats_lock := Some (Producer i)\<rparr>))
          else None
      | P_Record ts \<Rightarrow>
          Some (set_ppc i P_Unlock
            (l\<lparr>stats := (stats l)
                  \<lparr>total_produced := total_produced (stats l) + 1,
                   buffer_snapshots :=
                     (if ts mod snapshot_interval l = 0
                      then buffer_snapshots (stats l) @ [int (length (buffer l))]
                      else buffer_snapshots (stats l))\<rparr>,
                stats_lock := None\<rparr>))
      | P_FullLock \<Rightarrow>
          if stats_lock l = None
          then Some (set_ppc i P_FullRecord (l\<lparr>stats_lock := Some (Producer i)\<rparr>))
          else None
      | P_FullRecord \<Rightarrow>
          Some (set_ppc i P_Unlock
            (l\<lparr>stats := (stats l)\<lparr>producer_waits := producer_waits (stats l) + 1\<rparr>,
                stats_lock := None\<rparr>))
      | P_Unlock \<Rightarrow> Some (set_ppc i P_Signal (l\<lparr>mutex := None\<rparr>))
      | P_Signal \<Rightarrow>
          Some (set_ppc i (P_While SC_Running) (l\<lparr>filled_slots := filled_slots l + 1\<rparr>))
      | P_Done \<Rightarrow> None)"

text \<open>\<open>consumer_task(i)\<close>, lines 157-190.\<close>

definition consumer_step :: "nat \<Rightarrow> ProductionLine \<Rightarrow> ProductionLine option" where
  "consumer_step i l =
     (case consumer_pc l i of
        C_While q \<Rightarrow>
          (case should_continue_step (Consumer i) q l of
             None \<Rightarrow> None
           | Some (Inl q', l') \<Rightarrow> Some (set_cpc i (C_While q') l')
           | Some (Inr b, l') \<Rightarrow> Some (set_cpc i (if b then C_Acquire else C_Done) l'))
      | C_Acquire \<Rightarrow>
          if 0 < filled_slots l
          then Some (set_cpc i (C_Recheck SC_Running) (l\<lparr>filled_slots := filled_slots l - 1\<rparr>))
          else None
      | C_Recheck q \<Rightarrow>
          (case should_continue_step (Consumer i) q l of
             None \<Rightarrow> None
           | Some (Inl q', l') \<Rightarrow> Some (set_cpc i (C_Recheck q') l')
           | Some (Inr b, l') \<Rightarrow> Some (set_cpc i (if b then C_Mutex else C_GiveBack) l'))
      | C_GiveBack \<Rightarrow>
          Some (set_cpc i C_Done (l\<lparr>filled_slots := filled_slots l + 1\<rparr>))
      | C_Mutex \<Rightarrow>
          if mutex l = None then Some (set_cpc i C_Test (l\<lparr>mutex := Some (Consumer i)\<rparr>))
          else None
      | C_Test \<Rightarrow>
          Some (set_cpc i (if 0 < length (buffer l) then C_Pop else C_EmptyLock) l)
      | C_Pop \<Rightarrow>
          (case buffer l of
             [] \<Rightarrow> None
           | u # rest \<Rightarrow> Some (set_cpc i (C_StatsLock u) (l\<lparr>buffer := rest\<rparr>)))
      | C_StatsLock u \<Rightarrow>
          if stats_lock l = None
          then Some (set_cpc i (C_Record u) (l\<lparr>stats_lock := Some (Consumer i)\<rparr>))
          else None
      | C_Record u \<Rightarrow>
          Some (set_cpc i C_Unlock
            (l\<lparr>stats := (stats l)\<lparr>total_consumed := total_consumed (stats l) + 1\<rparr>,
                stats_lock := None\<rparr>))
      | C_EmptyLock \<Rightarrow>
          if stats_lock l = None
          then Some (set_cpc i C_EmptyRecord (l\<lparr>stats_lock := Some (Consumer i)\<rparr>))
          else None
      | C_EmptyRecord \<Rightarrow>
          Some (set_cpc i C_Unlock
            (l\<lparr>stats := (stats l)\<lparr>consumer_waits := consumer_waits (stats l) + 1\<rparr>,
                stats_lock := None\<rparr>))
      | C_Unlock \<Rightarrow> Some (set_cpc i C_Signal (l\<lparr>mutex := None\<rparr>))
      | C_Signal \<Rightarrow>
          Some (set_cpc i (C_While SC_Running) (l\<lparr>empty_slots := empty_slots l + 1\<rparr>))
      | C_Done \<Rightarrow> None)"

text \<open>
  \<open>wait_completion\<close>, lines 221-242. \<open>thread.join(timeout=1.0)\<close> returns when the worker
  has returned or when the timeout has elapsed, whichever comes first, and the result is
  not looked at: the main thread can take each join step at any moment, also while the
  worker is still running.
\<close>

definition main_step :: "ProductionLine \<Rightarrow> ProductionLine option" where
  "main_step l =
     (case main_pc l of
        W_Poll \<Rightarrow>
          if timestep_lock l = None
          then Some (l\<lparr>timestep_lock := Some Main, main_pc := W_PollRead\<rparr>)
          else None
      | W_PollRead \<Rightarrow>
          Some (l\<lparr>timestep_lock := None,
                  main_pc := (if current_timestep l < total_timesteps l then W_Poll else W_Stop)\<rparr>)
      | W_Stop \<Rightarrow> Some (l\<lparr>running := False, main_pc := W_RelEmpty 0\<rparr>)
      | W_RelEmpty k \<Rightarrow>
          if k < num_producers l
          then Some (l\<lparr>empty_slots := empty_slots l + 1, main_pc := W_RelEmpty (k + 1)\<rparr>)
          else Some (l\<lparr>main_pc := W_RelFilled 0\<rparr>)
      | W_RelFilled k \<Rightarrow>
          if k < num_consumers l
          then Some (l\<lparr>filled_slots := filled_slots l + 1, main_pc := W_RelFilled (k + 1)\<rparr>)
          else Some (l\<lparr>main_pc := W_JoinProducers 0\<rparr>)
      | W_JoinProducers k \<Rightarrow>
          if k < num_producers l
          then Some (l\<lparr>main_pc := W_JoinProducers (k + 1)\<rparr>)
          else Some (l\<lparr>main_pc := W_JoinConsumers 0\<rparr>)
      | W_JoinConsumers k \<Rightarrow>
          if k < num_consumers l
          then Some (l\<lparr>main_pc := W_JoinConsumers (k + 1)\<rparr>)
          else Some (l\<lparr>main_pc := W_Done\<rparr>)
      | W_Done \<Rightarrow> None)"

text \<open>One action of thread \<open>t\<close>; \<open>start\<close> spawns the workers \<open>range(num_producers)\<close> and
  \<open>range(num_consumers)\<close> only (lines 204, 212).\<close>

definition step :: "ProductionLine \<Rightarrow> tid \<Rightarrow> ProductionLine option" where
  "step l t =
     (case t of
        Producer i \<Rightarrow> if int i < num_producers l then producer_step i l else None
      | Consumer i \<Rightarrow> if int i < num_consumers l then consumer_step i l else None
      | Main \<Rightarrow> main_step l)"

text \<open>A schedule is the list of the threads that act, in order.\<close>

fun run :: "ProductionLine \<Rightarrow> tid list \<Rightarrow> ProductionLine option" where
  "run l [] = Some l"
| "run l (t # ts) = (case step l t of None \<Rightarrow> None | Some l' \<Rightarrow> run l' ts)"

text \<open>The states a run can be in.\<close>

inductive reachable :: "ProductionLine \<Rightarrow> ProductionLine \<Rightarrow> bool" for l0 where
  reach_init: "reachable l0 l0"
| reach_step: "reachable l0 l \<Longrightarrow> step l t = Some l' \<Longrightarrow> reachable l0 l'"

text \<open>
  A run together with what it did to the buffer, read off the buffer itself: \<open>ps\<close> lists
  the units by which the buffer grew (its new last element), \<open>cs\<close> the units by which it
  shrank (its old first element), in the order of the steps.
\<close>

definition grown :: "ProductionLine \<Rightarrow> ProductionLine \<Rightarrow> piece list" where
  "grown l l' =
     (if length (buffer l) < length (buffer l') then [last (buffer l')] else [])"

definition shrunk :: "ProductionLine \<Rightarrow> ProductionLine \<Rightarrow> piece list" where
  "shrunk l l' =
     (if length (buffer l') < length (buffer l) then [hd (buffer l)] else [])"

inductive execution ::
  "ProductionLine \<Rightarrow> ProductionLine \<Rightarrow> piece list \<Rightarrow> piece list \<Rightarrow> bool" for l0 where
  exec_init: "execution l0 l0 [] []"
| exec_step: "execution l0 l ps cs \<Longrightarrow> step l t = Some l' \<Longrightarrow>
     execution l0 l' (ps @ grown l l') (cs @ shrunk l l')"

text \<open>The same, computed along a schedule.\<close>

fun run_log ::
  "ProductionLine \<Rightarrow> piece list \<Rightarrow> piece list \<Rightarrow> tid list \<Rightarrow>
   (ProductionLine \<times> piece list \<times> piece list) option" where
  "run_log l ps cs [] = Some (l, ps, cs)"
| "run_log l ps cs (t # ts) =
     (case step l t of
        None \<Rightarrow> None
      | Some l' \<Rightarrow> run_log l' (ps @ grown l l') (cs @ shrunk l l') ts)"

text \<open>\<open>wait_completion\<close> has returned (line 242).\<close>

definition returned :: "ProductionLine \<Rightarrow> bool" where
  "returned l \<longleftrightarrow> main_pc l = W_Done"

text \<open>
  Every worker has returned from its task. A run is completed when \<open>wait_completion\<close>
  has returned and every worker has returned, so that no join has timed out.
\<close>

definition all_joined :: "ProductionLine \<Rightarrow> bool" where
  "all_joined l \<longleftrightarrow>
     (\<forall>i < nat (num_producers l). producer_pc l i = P_Done) \<and>
     (\<forall>i < nat (num_consumers l). consumer_pc l i = C_Done)"

definition completed :: "ProductionLine \<Rightarrow> bool" where
  "completed l \<longleftrightarrow> main_pc l = W_Done \<and> all_joined l"

section \<open>Auxiliary notions for the proofs\<close>

text \<open>
  The control point of any thread, and the control points at which the source text is
  inside a \<open>with\<close> block of each lock.
\<close>

datatype pc = PP ppc | CP cpc | WP wpc

definition pc_of :: "ProductionLine \<Rightarrow> tid \<Rightarrow> pc" where
  "pc_of l t = (case t of Producer i \<Rightarrow> PP (producer_pc l i)
     | Consumer i \<Rightarrow> CP (consumer_pc l i) | Main \<Rightarrow> WP (main_pc l))"

fun holds_mutex :: "pc \<Rightarrow> bool" where
  "holds_mutex (PP P_Test) = True"
| "holds_mutex (PP P_IncLock) = True"
| "holds_mutex (PP P_Inc) = True"
| "holds_mutex (PP (P_Append _)) = True"
| "holds_mutex (PP (P_StatsLock _)) = True"
| "holds_mutex (PP (P_Record _)) = True"
| "holds_mutex (PP P_FullLock) = True"
| "holds_mutex (PP P_FullRecord) = True"
| "holds_mutex (PP P_Unlock) = True"
| "holds_mutex (CP C_Test) = True"
| "holds_mutex (CP C_Pop) = True"
| "holds_mutex (CP (C_StatsLock _)) = True"
| "holds_mutex (CP (C_Record _)) = True"
| "holds_mutex (CP C_EmptyLock) = True"
| "holds_mutex (CP C_EmptyRecord) = True"
| "holds_mutex (CP C_Unlock) = True"
| "holds_mutex _ = False"

fun holds_timestep_lock :: "pc \<Rightarrow> bool" where
  "holds_timestep_lock (PP (P_While SC_Read)) = True"
| "holds_timestep_lock (PP (P_Recheck SC_Read)) = True"
| "holds_timestep_lock (PP P_Inc) = True"
| "holds_timestep_lock (CP (C_While SC_Read)) = True"
| "holds_timestep_lock (CP (C_Recheck SC_Read)) = True"
| "holds_timestep_lock (WP W_PollRead) = True"
| "holds_timestep_lock _ = False"

fun holds_stats_lock :: "pc \<Rightarrow> bool" where
  "holds_stats_lock (PP (P_Record _)) = True"
| "holds_stats_lock (PP P_FullRecord) = True"
| "holds_stats_lock (CP (C_Record _)) = True"
| "holds_stats_lock (CP C_EmptyRecord) = True"
| "holds_stats_lock _ = False"

text \<open>Each lock is held by exactly the thread whose control point is inside its block.\<close>

definition lock_inv :: "ProductionLine \<Rightarrow> bool" where
  "lock_inv l \<longleftrightarrow>
     (\<forall>t. holds_mutex (pc_of l t) = (mutex l = Some t)) \<and>
     (\<forall>t. holds_timestep_lock (pc_of l t) = (timestep_lock l = Some t)) \<and>
     (\<forall>t. holds_stats_lock (pc_of l t) = (stats_lock l = Some t))"

text \<open>
  What one step of thread \<open>t\<close> can do to a lock \<open>k\<close>, where \<open>h\<close> and \<open>h'\<close> say whether
  \<open>t\<close> is inside the block before and after: nothing, take the free lock, or release it.
\<close>

definition lock_move :: "tid option \<Rightarrow> tid option \<Rightarrow> tid \<Rightarrow> bool \<Rightarrow> bool \<Rightarrow> bool" where
  "lock_move k k' t h h' \<longleftrightarrow>
     (k' = k \<and> h' = h) \<or> (k = None \<and> k' = Some t \<and> \<not> h \<and> h') \<or> (k' = None \<and> h \<and> \<not> h')"

text \<open>
  The control point of the thread inside the buffer's critical section (\<open>WP W_Done\<close> when
  the mutex is free), and the control points of the section at which nothing is in flight.
\<close>

definition critical_pc :: "ProductionLine \<Rightarrow> pc" where
  "critical_pc l = (case mutex l of None \<Rightarrow> WP W_Done | Some t \<Rightarrow> pc_of l t)"

fun idle :: "pc \<Rightarrow> bool" where
  "idle (PP P_Test) = True"
| "idle (PP P_Unlock) = True"
| "idle (CP C_Test) = True"
| "idle (CP C_Unlock) = True"
| "idle (WP _) = True"
| "idle _ = False"

definition same_data :: "ProductionLine \<Rightarrow> ProductionLine \<Rightarrow> bool" where
  "same_data l l' \<longleftrightarrow>
     buffer l' = buffer l \<and> stats l' = stats l \<and> current_timestep l' = current_timestep l"

definition same_config :: "ProductionLine \<Rightarrow> ProductionLine \<Rightarrow> bool" where
  "same_config l l' \<longleftrightarrow>
     buffer_capacity l' = buffer_capacity l \<and> num_producers l' = num_producers l \<and>
     num_consumers l' = num_consumers l \<and> total_timesteps l' = total_timesteps l \<and>
     snapshot_interval l' = snapshot_interval l"

text \<open>
  Invariants of the shared data, relative to the control point \<open>c\<close> of the thread inside
  the critical section. Between the test of line 133 and the append there is room for one
  more unit; before \<open>pop(0)\<close> the buffer is not empty.
\<close>

fun has_room :: "pc \<Rightarrow> bool" where
  "has_room (PP P_IncLock) = True"
| "has_room (PP P_Inc) = True"
| "has_room (PP (P_Append _)) = True"
| "has_room _ = False"

definition cap_ok :: "pc \<Rightarrow> ProductionLine \<Rightarrow> bool" where
  "cap_ok c l \<longleftrightarrow>
     int (length (buffer l)) \<le> buffer_capacity l \<and>
     (has_room c \<longrightarrow> int (length (buffer l)) < buffer_capacity l) \<and>
     (c = CP C_Pop \<longrightarrow> buffer l \<noteq> []) \<and>
     (\<forall>x \<in> set (buffer_snapshots (stats l)). 0 \<le> x \<and> x \<le> buffer_capacity l)"

text \<open>
  Between the append and its count the produced counter is one behind; between the pop
  and its count the consumed counter is one behind.
\<close>

fun pending :: "pc \<Rightarrow> int" where
  "pending (PP (P_StatsLock _)) = 1"
| "pending (PP (P_Record _)) = 1"
| "pending (CP (C_StatsLock _)) = - 1"
| "pending (CP (C_Record _)) = - 1"
| "pending _ = 0"

definition cons_ok :: "pc \<Rightarrow> ProductionLine \<Rightarrow> bool" where
  "cons_ok c l \<longleftrightarrow>
     total_produced (stats l) + pending c = total_consumed (stats l) + int (length (buffer l))"

text \<open>
  The units produced so far carry the timesteps \<open>1, 2, ...\<close> in order; a timestep that has
  been drawn at line 135 and not yet appended is missing from the list.
\<close>

fun unappended :: "pc \<Rightarrow> int" where
  "unappended (PP (P_Append _)) = 1"
| "unappended _ = 0"

fun uncounted :: "pc \<Rightarrow> int" where
  "uncounted (PP (P_StatsLock _)) = 1"
| "uncounted (PP (P_Record _)) = 1"
| "uncounted _ = 0"

definition log_ok :: "pc \<Rightarrow> ProductionLine \<Rightarrow> piece list \<Rightarrow> bool" where
  "log_ok c l ps \<longleftrightarrow>
     map tstep ps = [1 .. current_timestep l - unappended c] \<and>
     int (length ps) = total_produced (stats l) + uncounted c \<and>
     0 \<le> current_timestep l - unappended c \<and>
     (\<forall>ts. c = PP (P_Append ts) \<longrightarrow> ts = current_timestep l)"

definition spawned :: "ProductionLine \<Rightarrow> tid \<Rightarrow> bool" where
  "spawned l t = (case t of Producer i \<Rightarrow> int i < num_producers l
     | Consumer i \<Rightarrow> int i < num_consumers l | Main \<Rightarrow> True)"

text \<open>The main thread is still in the polling loop of line 224.\<close>

fun polling :: "wpc \<Rightarrow> bool" where
  "polling W_Poll = True"
| "polling W_PollRead = True"
| "polling _ = False"

text \<open>
  A timestep that has been drawn and whose snapshot decision (line 144) is still to come;
  the timestep a producer carries in its local variable.
\<close>

fun unsnapped :: "pc \<Rightarrow> int" where
  "unsnapped (PP (P_Append _)) = 1"
| "unsnapped (PP (P_StatsLock _)) = 1"
| "unsnapped (PP (P_Record _)) = 1"
| "unsnapped _ = 0"

fun tagged :: "pc \<Rightarrow> int option" where
  "tagged (PP (P_Append ts)) = Some ts"
| "tagged (PP (P_StatsLock ts)) = Some ts"
| "tagged (PP (P_Record ts)) = Some ts"
| "tagged _ = None"

definition snap_ok :: "pc \<Rightarrow> ProductionLine \<Rightarrow> bool" where
  "snap_ok c l \<longleftrightarrow>
     0 < snapshot_interval l \<and>
     int (length (buffer_snapshots (stats l))) =
       (current_timestep l - unsnapped c) div snapshot_interval l \<and>
     (\<forall>ts. tagged c = Some ts \<longrightarrow> ts = current_timestep l)"

text \<open>
  The producers that have passed the check of line 127 and have not yet reached the
  increment of line 109 or the rejected branch: each of them may still increment.
\<close>

fun committed :: "ppc \<Rightarrow> bool" where
  "committed P_Mutex = True"
| "committed P_Test = True"
| "committed P_IncLock = True"
| "committed P_Inc = True"
| "committed _ = False"

definition committed_set :: "ProductionLine \<Rightarrow> nat set" where
  "committed_set l = {i. int i < num_producers l \<and> committed (producer_pc l i)}"

definition overshoot_ok :: "ProductionLine \<Rightarrow> bool" where
  "overshoot_ok l \<longleftrightarrow>
     (total_timesteps l \<le> current_timestep l \<longrightarrow>
      current_timestep l + int (card (committed_set l)) \<le> total_timesteps l + num_producers l - 1)"

text \<open>
  Where the permits of the two semaphores are. A producer that has passed the check of
  line 127 holds a permit of \<open>empty_slots\<close> until it has appended (\<open>p_entering\<close>); one
  that has acquired and not yet checked, or is about to give the permit back at line 128,
  holds one too (\<open>p_holding\<close>); one that has appended owes a permit to \<open>filled_slots\<close>
  until line 152 (\<open>p_signalling\<close>). Symmetrically for a consumer, with \<open>filled_slots\<close>
  taken at line 165 and \<open>empty_slots\<close> owed until line 187.
\<close>

fun p_entering :: "ppc \<Rightarrow> int" where
  "p_entering P_Mutex = 1"
| "p_entering P_Test = 1"
| "p_entering P_IncLock = 1"
| "p_entering P_Inc = 1"
| "p_entering (P_Append _) = 1"
| "p_entering _ = 0"

fun p_holding :: "ppc \<Rightarrow> int" where
  "p_holding (P_Recheck _) = 1"
| "p_holding P_GiveBack = 1"
| "p_holding _ = 0"

fun p_signalling :: "ppc \<Rightarrow> int" where
  "p_signalling (P_StatsLock _) = 1"
| "p_signalling (P_Record _) = 1"
| "p_signalling P_Unlock = 1"
| "p_signalling P_Signal = 1"
| "p_signalling _ = 0"

fun c_entering :: "cpc \<Rightarrow> int" where
  "c_entering C_Mutex = 1"
| "c_entering C_Test = 1"
| "c_entering C_Pop = 1"
| "c_entering _ = 0"

fun c_holding :: "cpc \<Rightarrow> int" where
  "c_holding (C_Recheck _) = 1"
| "c_holding C_GiveBack = 1"
| "c_holding _ = 0"

fun c_signalling :: "cpc \<Rightarrow> int" where
  "c_signalling (C_StatsLock _) = 1"
| "c_signalling (C_Record _) = 1"
| "c_signalling C_Unlock = 1"
| "c_signalling C_Signal = 1"
| "c_signalling _ = 0"

text \<open>The number of spawned producers, and of spawned consumers, at control points of weight 1.\<close>

definition producer_count :: "(ppc \<Rightarrow> int) \<Rightarrow> ProductionLine \<Rightarrow> int" where
  "producer_count w l = (\<Sum>i < nat (num_producers l). w (producer_pc l i))"

definition consumer_count :: "(cpc \<Rightarrow> int) \<Rightarrow> ProductionLine \<Rightarrow> int" where
  "consumer_count w l = (\<Sum>i < nat (num_consumers l). w (consumer_pc l i))"

text \<open>
  While \<open>wait_completion\<close> polls, the permits of \<open>empty_slots\<close>, free or held, never
  exceed the free places of the buffer, and the permits of \<open>filled_slots\<close> never exceed
  the units in it; afterwards the timestep has reached its total and no check of line 127
  or 168 passes any more. So the tests of lines 133 and 175 never fail, and no thread is
  ever on a defensive branch.
\<close>

definition slots_ok :: "ProductionLine \<Rightarrow> bool" where
  "slots_ok l \<longleftrightarrow>
     (\<forall>i. producer_pc l i \<noteq> P_FullLock \<and> producer_pc l i \<noteq> P_FullRecord) \<and>
     (\<forall>i. consumer_pc l i \<noteq> C_EmptyLock \<and> consumer_pc l i \<noteq> C_EmptyRecord) \<and>
     producer_waits (stats l) = 0 \<and> consumer_waits (stats l) = 0 \<and>
     int (length (buffer l)) + producer_count p_entering l + consumer_count c_signalling l \<le> buffer_capacity l \<and>
     consumer_count c_entering l \<le> int (length (buffer l)) \<and>
     (polling (main_pc l) \<longrightarrow>
        int (empty_slots l) + producer_count p_entering l + producer_count p_holding l + int (length (buffer l)) + consumer_count c_signalling l
          \<le> buffer_capacity l) \<and>
     (polling (main_pc l) \<longrightarrow>
        int (filled_slots l) + consumer_count c_entering l + consumer_count c_holding l + producer_count p_signalling l \<le> int (length (buffer l))) \<and>
     (\<not> polling (main_pc l) \<longrightarrow> total_timesteps l \<le> current_timestep l)"


text \<open>Observations of a state, for the concrete runs below.\<close>

definition tally :: "ProductionLine \<Rightarrow> bool \<times> int \<times> int \<times> nat" where
  "tally l = (returned l, total_produced (stats l), total_consumed (stats l), length (buffer l))"

definition lock_owners :: "ProductionLine \<Rightarrow> tid option \<times> tid option \<times> tid option" where
  "lock_owners l = (mutex l, timestep_lock l, stats_lock l)"

definition outcome :: "ProductionLine \<Rightarrow> bool \<times> int \<times> int \<times> int \<times> nat \<times> nat" where
  "outcome l = (completed l, current_timestep l, total_produced (stats l),
     total_consumed (stats l), length (buffer l), length (buffer_snapshots (stats l)))"

text \<open>
  A state on the defensive branch of \<open>producer_task\<close>: capacity 1, one unit in the buffer,
  producer 0 about to enter the block of line 132.
\<close>

definition rejected_line :: ProductionLine where
  "rejected_line = (new_line 1 1 1 5)
     \<lparr>buffer := [Piece 0 1], empty_slots := 0,
      producer_pc := (\<lambda>_. P_While SC_Running)(0 := P_Mutex)\<rparr>"

text \<open>
  The minimum as the specification words it, \<open>ceil(1.1 * num_producers)\<close>, in integer
  arithmetic: the least integer \<open>c\<close> with \<open>11 * num_producers \<le> 10 * c\<close>.
\<close>

definition claimed_min_consumers :: "int \<Rightarrow> int" where
  "claimed_min_consumers np = (11 * np + 9) div 10"

text \<open>
  Schedules. In \<open>handoff_schedule\<close> (capacity 1, one producer, one consumer, two timesteps)
  the producer makes a unit, the consumer takes it, the producer makes a second one, both
  workers leave their loops and \<open>wait_completion\<close> returns. In \<open>timeout_schedule\<close>
  (capacity 1, one producer, one consumer, one timestep) the producer appends its unit and
  does not run again before the join of line 238 has timed out. In \<open>overshoot_schedule\<close>
  three producers pass the check of line 127 before any of them increments the timestep.
\<close>

definition handoff_schedule :: "tid list" where
  "handoff_schedule =
     replicate 16 (Producer 0) @ replicate 14 (Consumer 0) @ replicate 16 (Producer 0) @
     replicate 3 (Producer 0) @ replicate 3 (Consumer 0) @ replicate 11 Main"

definition timeout_schedule :: "tid list" where
  "timeout_schedule = replicate 12 (Producer 0) @ replicate 11 Main"

definition overshoot_schedule :: "tid list" where
  "overshoot_schedule =
     replicate 7 (Producer 0) @ replicate 7 (Producer 1) @ replicate 7 (Producer 2) @
     replicate 9 (Producer 0) @ replicate 9 (Producer 1) @ replicate 9 (Producer 2) @
     replicate 3 (Producer 0) @ replicate 3 (Producer 1) @ replicate 3 (Producer 2) @
     replicate 3 (Consumer 0) @ replicate 3 (Consumer 1) @ replicate 3 (Consumer 2) @
     replicate 3 (Consumer 3) @ replicate 21 Main"

section \<open>Construction and validation\<close>

subsection \<open>The consumer minimum\<close>

lemma claimed_min_consumers_ceiling:
  "11 * np \<le> 10 * claimed_min_consumers np \<and> 10 * (claimed_min_consumers np - 1) < 11 * np"
  unfolding claimed_min_consumers_def by presburger

lemma bit_length_le: "n < 2 ^ k \<Longrightarrow> bit_length n \<le> k"
proof (induction k arbitrary: n)
  case 0
  then show ?case by (simp add: bit_length.simps)
next
  case (Suc k)
  show ?case
  proof (cases "n \<le> 0")
    case True
    then show ?thesis by (simp add: bit_length.simps)
  next
    case False
    from Suc.prems have "n div 2 < 2 ^ k" by simp
    from Suc.IH[OF this] False show ?thesis
      by (subst bit_length.simps) simp
  qed
qed

lemma bit_length_bounds: "0 < n \<Longrightarrow> 2 ^ (bit_length n - 1) \<le> n \<and> n < 2 ^ bit_length n"
proof (induction n rule: bit_length.induct)
  case (1 n)
  show ?case
  proof (cases "n div 2 \<le> 0")
    case True
    with 1(2) have "n = 1" by linarith
    then show ?thesis by (simp add: bit_length.simps)
  next
    case False
    then have pos: "0 < n div 2" by simp
    with 1 have ih: "2 ^ (bit_length (n div 2) - 1) \<le> n div 2" "n div 2 < 2 ^ bit_length (n div 2)"
      by simp_all
    have b: "bit_length n = Suc (bit_length (n div 2))"
      using 1(2) by (subst bit_length.simps) simp
    have "0 < bit_length (n div 2)"
      using pos by (subst bit_length.simps) simp
    then have "(2::int) ^ bit_length (n div 2) = 2 * 2 ^ (bit_length (n div 2) - 1)"
      by (cases "bit_length (n div 2)") simp_all
    with ih show ?thesis unfolding b by simp linarith
  qed
qed

lemma div_between:
  fixes b T N :: int
  assumes "0 < T" "N * T \<le> b" "b < (N + 1) * T"
  shows "b div T = N"
proof -
  have "b = N * T + (b - N * T)" by simp
  moreover have "0 \<le> b - N * T" "b - N * T < T"
    using assms by (simp_all add: algebra_simps)
  ultimately show ?thesis
    by (metis add.commute assms(1) div_pos_pos_trivial div_mult_self1 less_irrefl add.right_neutral mult.commute)
qed

lemma int_div_less:
  fixes x k A :: int
  assumes "0 < A" "x < A * k"
  shows "x div A < k"
proof (rule ccontr)
  assume "\<not> x div A < k"
  then have 1: "A * k \<le> A * (x div A)" using assms(1) by (simp add: mult_left_mono)
  have 2: "A * (x div A) + x mod A = x" by simp
  have 3: "0 \<le> x mod A" using assms(1) by simp
  from 1 2 3 assms(2) show False by linarith
qed

text \<open>
  The double nearest to 1.1 is \<open>4953959590107546 / 2^52\<close>, and
  \<open>10 * 4953959590107546 = 11 * 2^52 + 4\<close>: the product exceeds \<open>1.1 * p\<close> by
  \<open>4 * p / (10 * 2^52)\<close>, which together with the rounding error stays below the distance
  to the next integer as long as \<open>p \<le> 10^14\<close>.
\<close>

lemma product_above:
  fixes p N r A :: int
  assumes "11 * p = 10 * N + r" "0 \<le> r" "r \<le> 9" "0 \<le> p" "p \<le> 100000000000000"
     "A * 4503599627370496 \<le> p * 4953959590107546"
  shows "p * 4953959590107546 + A < (N + 1) * 4503599627370496"
proof -
  have "A * 4503599627370496 \<le> 100000000000000 * 4953959590107546"
    using assms(5,6) by linarith
  then have A1: "A \<le> 110000000000001" by linarith
  have e: "10 * (p * 4953959590107546) = (10 * N + r) * 4503599627370496 + 4 * p"
    unfolding assms(1)[symmetric] by simp
  have "10 * (p * 4953959590107546 + A) < 10 * ((N + 1) * 4503599627370496)"
    using e A1 assms(2-5) by (simp add: algebra_simps)
  then show ?thesis by simp
qed

lemma product_floor:
  fixes p m A T b :: int
  assumes p: "0 \<le> p" "p \<le> 100000000000000"
    and m: "m = p * 4953959590107546"
    and A: "0 < A" "A * T = 4503599627370496" "0 < T"
    and lo: "A * 4503599627370496 \<le> m"
    and b: "b = m div A \<or> b = m div A + 1"
  shows "b div T = 11 * p div 10"
proof -
  define N where "N = 11 * p div 10"
  define r where "r = 11 * p mod 10"
  have N: "11 * p = 10 * N + r" "0 \<le> r" "r \<le> 9"
    unfolding N_def r_def by presburger+
  have below: "N * 4503599627370496 \<le> m"
    using N p unfolding m by linarith
  have above: "m + A < (N + 1) * 4503599627370496"
    unfolding m by (rule product_above[OF N p lo[unfolded m]])
  have "N * T * A = N * (A * T)" by (simp add: algebra_simps)
  also have "\<dots> = N * 4503599627370496" unfolding A(2) ..
  finally have e1: "N * T * A = N * 4503599627370496" .
  have "N * T * A \<le> m" unfolding e1 by (rule below)
  then have "(N * T * A) div A \<le> m div A" by (rule zdiv_mono1) (use A in simp)
  then have 1: "N * T \<le> m div A" using A(1) by simp
  have "A * ((N + 1) * T) = (N + 1) * (A * T)" by (simp add: algebra_simps)
  also have "\<dots> = (N + 1) * 4503599627370496" unfolding A(2) ..
  finally have e2: "A * ((N + 1) * T) = (N + 1) * 4503599627370496" .
  have "m + A < A * ((N + 1) * T)" unfolding e2 by (rule above)
  then have "(m + A) div A < (N + 1) * T"
    using A(1) by (intro int_div_less)
  moreover have "A \<noteq> 0" using A(1) by simp
  then have "(m + A) div A = m div A + 1" by (rule div_add_self2)
  ultimately have 2: "m div A + 1 < (N + 1) * T" by simp
  from 1 2 b have "N * T \<le> b" "b < (N + 1) * T" by auto
  with div_between[OF A(3)] show ?thesis unfolding N_def by blast
qed

text \<open>Up to \<open>10^14\<close> producers, line 57 computes the floor of \<open>1.1 * num_producers\<close>.\<close>

lemma min_consumers_floor:
  assumes "0 \<le> p" "p \<le> 100000000000000"
  shows "min_consumers_of p = Inr (11 * p div 10)"
proof (cases "p = 0")
  case True
  then show ?thesis
    by (simp add: min_consumers_of_def round53_def bit_length.simps)
next
  case False
  with assms have p1: "1 \<le> p" by simp
  define m where "m = p * 4953959590107546"
  have mpos: "0 < m" and mlo: "4503599627370496 \<le> m"
    using p1 unfolding m_def by linarith+
  have "p < 2 ^ 53" using assms(2) by simp
  then have bp: "bit_length p \<le> 53" by (rule bit_length_le)
  then have rp: "round53 p = (p, 0)" by (simp add: round53_def)
  have "m < 2 ^ 100" using assms unfolding m_def by simp
  then have bm: "bit_length m \<le> 100" by (rule bit_length_le)
  show ?thesis
  proof (cases "bit_length m \<le> 53")
    case True
    then have rm: "round53 m = (m, 0)" by (simp add: round53_def)
    have "m div 4503599627370496 = 11 * p div 10"
      by (rule product_floor[OF assms m_def, where A = 1]) (use mlo in simp_all)
    then show ?thesis
      using bp True by (simp add: min_consumers_of_def rp rm m_def[symmetric])
  next
    case False
    define s where "s = bit_length m - 53"
    define b where "b = (if 2 ^ (s - 1) < m mod 2 ^ s \<or>
        (m mod 2 ^ s = 2 ^ (s - 1) \<and> odd (m div 2 ^ s)) then m div 2 ^ s + 1 else m div 2 ^ s)"
    have rm: "round53 m = (b, s)"
      using False by (simp add: round53_def Let_def s_def b_def)
    have s: "0 < s" "s < 52" "bit_length m - 1 = s + 52"
      using False bm unfolding s_def by simp_all
    from bit_length_bounds[OF mpos] have lo: "2 ^ s * 4503599627370496 \<le> m"
      unfolding s(3) by (simp add: power_add)
    have T: "(2::int) ^ s * 2 ^ (52 - s) = 4503599627370496"
      using s(2) by (simp add: power_add[symmetric])
    have bb: "b = m div 2 ^ s \<or> b = m div 2 ^ s + 1" unfolding b_def by simp
    have res: "b div 2 ^ (52 - s) = 11 * p div 10"
      by (rule product_floor[OF assms m_def _ T _ lo bb]) simp_all
    have "bit_length m = s + 53" using False unfolding s_def by simp
    with bit_length_bounds[OF mpos] have "m < 2 ^ (s + 53)" by simp
    then have "m < 2 ^ s * 2 ^ 53" by (simp only: power_add)
    then have "m div 2 ^ s < 2 ^ 53" by (intro int_div_less) simp_all
    with bb have "b < 2 ^ 101" by auto
    then have "bit_length b \<le> 101" by (rule bit_length_le)
    with s(2) have ov: "\<not> 1076 < bit_length b + s" by simp
    show ?thesis
      using bp ov s(2) res by (simp add: min_consumers_of_def rp rm m_def[symmetric])
  qed
qed

text \<open>
  C3, as stated, fails: with 201 producers the claimed minimum is 222 consumers, and
  construction with 221 consumers succeeds.
\<close>

theorem consumer_minimum_counterexample:
  "ProductionLine_init 1000 201 221 1000000 True = Inr (new_line 1000 201 221 1000000) \<and>
   (221::int) < claimed_min_consumers 201"
  by (simp add: ProductionLine_init_def validate_parameters_def
      min_consumers_floor claimed_min_consumers_def)

text \<open>
  C3, amended. For \<open>200 \<le> num_producers \<le> 10^14\<close> and the other parameters at or above
  their minima, construction with \<open>validate=True\<close> succeeds if and only if
  \<open>num_consumers \<ge> floor(1.1 * num_producers)\<close>, which is what \<open>int(num_producers * 1.1)\<close>
  evaluates to; any smaller \<open>num_consumers\<close> raises the error naming that minimum.
\<close>

theorem consumer_minimum:
  assumes "200 \<le> np" "np \<le> 100000000000000" "1000 \<le> cap" "1000000 \<le> tt"
  shows "min_consumers_of np = Inr (11 * np div 10) \<and>
         ((\<exists>l. ProductionLine_init cap np nc tt True = Inr l) \<longleftrightarrow> 11 * np div 10 \<le> nc) \<and>
         (nc < 11 * np div 10 \<longrightarrow>
            ProductionLine_init cap np nc tt True = Inl (ValueError (ConsumersMin (11 * np div 10))))"
proof -
  have "min_consumers_of np = Inr (11 * np div 10)"
    using assms(1,2) by (intro min_consumers_floor) simp_all
  with assms show ?thesis
    by (auto simp: ProductionLine_init_def validate_parameters_def)
qed

theorem consumer_minimum_witness:
  "(200::int) \<le> 201 \<and> min_consumers_of 201 = Inr 221 \<and>
   ProductionLine_init 1000 201 221 1000000 True = Inr (new_line 1000 201 221 1000000) \<and>
   ProductionLine_init 1000 201 220 1000000 True = Inl (ValueError (ConsumersMin 221))"
  using consumer_minimum[of 201 1000 1000000 221] consumer_minimum[of 201 1000 1000000 220]
  by (simp add: ProductionLine_init_def validate_parameters_def)

subsection \<open>Validation errors\<close>

text \<open>The conversion of line 57 overflows from \<open>2^1024\<close> on, and not below \<open>2^1023\<close>.\<close>

lemma bit_length_pow2: "bit_length (2 ^ k) = Suc k"
proof (induction k)
  case 0
  show ?case by (simp add: bit_length.simps)
next
  case (Suc k)
  have "bit_length (2 ^ Suc k) = Suc (bit_length (2 ^ Suc k div 2))"
    by (subst bit_length.simps) simp
  also have "(2::int) ^ Suc k div 2 = 2 ^ k" by simp
  finally show ?case using Suc by simp
qed

lemma round53_pow2:
  assumes "53 \<le> k"
  shows "round53 (2 ^ k) = (2 ^ 52, k - 52)"
proof -
  have e: "(2::int) ^ k = 2 ^ 52 * 2 ^ (k - 52)"
    by (simp only: power_add[symmetric]) (use assms in simp)
  have p: "(0::int) < 2 ^ (k - 52)" by simp
  have d: "(2::int) ^ k div 2 ^ (k - 52) = 2 ^ 52" unfolding e using p by simp
  have m: "(2::int) ^ k mod 2 ^ (k - 52) = 0" unfolding e by simp
  have s: "Suc k - 53 = k - 52" using assms by simp
  have h: "(0::int) < 2 ^ (k - 52 - 1)" by simp
  show ?thesis
    unfolding round53_def bit_length_pow2 Let_def s d m
    using assms h by simp
qed

lemma min_consumers_overflow:
  assumes "1024 \<le> k"
  shows "min_consumers_of (2 ^ k) = Inl OverflowError"
proof -
  have r: "round53 (2 ^ k) = (2 ^ 52, k - 52)" by (rule round53_pow2) (use assms in simp)
  have "1024 < bit_length ((2::int) ^ 52) + (k - 52)"
    unfolding bit_length_pow2 using assms by simp
  then show ?thesis
    unfolding min_consumers_of_def r by (simp only: prod.case if_True)
qed

lemma round53_bounds:
  assumes "round53 m = (a, s)"
  shows "a \<le> 2 ^ 53 \<and> s = bit_length m - 53 \<and> (s = 0 \<longrightarrow> a = m) \<and> a \<le> m div 2 ^ s + 1"
proof (cases "bit_length m \<le> 53")
  case True
  with assms have a: "a = m" "s = 0" by (simp_all add: round53_def Let_def)
  show ?thesis
  proof (cases "0 < m")
    case pos: True
    from bit_length_bounds[OF pos] have "m < 2 ^ bit_length m" by simp
    also have "(2::int) ^ bit_length m \<le> 2 ^ 53" using True by (rule power_increasing) simp
    finally show ?thesis using a True by simp
  next
    case False
    then have "m \<le> 0" by simp
    also have "(0::int) \<le> 2 ^ 53" by simp
    finally show ?thesis using a True by simp
  qed
next
  case False
  define n where "n = bit_length m"
  define t where "t = n - 53"
  from False have n: "53 < n" and nt: "n = t + 53" by (simp_all add: n_def t_def)
  have pos: "0 < m"
  proof (rule ccontr)
    assume "\<not> 0 < m"
    then have "bit_length m = 0" by (simp add: bit_length.simps)
    with False show False by simp
  qed
  from bit_length_bounds[OF pos] have "m < 2 ^ n" by (simp add: n_def)
  then have "m < 2 ^ t * 2 ^ 53" unfolding nt by (simp add: power_add)
  then have q: "m div 2 ^ t < 2 ^ 53" by (intro int_div_less) simp_all
  from assms False have s: "s = t"
    and a: "a = m div 2 ^ t \<or> a = m div 2 ^ t + 1"
    by (auto simp: round53_def Let_def n_def t_def split: if_splits)
  from a q have "a \<le> 2 ^ 53" by auto
  moreover have "s \<noteq> 0" using s n by (simp add: t_def)
  moreover from a have "a \<le> m div 2 ^ s + 1" unfolding s by auto
  ultimately show ?thesis using s by (simp add: t_def n_def)
qed

lemma bit_length_54: "a \<le> 2 ^ 53 \<Longrightarrow> bit_length a \<le> 54"
  by (rule bit_length_le) simp

lemma min_consumers_defined:
  assumes "p < 2 ^ 1023"
  shows "\<exists>m. min_consumers_of p = Inr m"
proof -
  obtain a sa where ra: "round53 p = (a, sa)" by (cases "round53 p")
  obtain b sb where rb: "round53 (a * 4953959590107546) = (b, sb)"
    by (cases "round53 (a * 4953959590107546)")
  from round53_bounds[OF ra] have a: "a \<le> 2 ^ 53" and sa: "sa = bit_length p - 53"
    and a0: "sa = 0 \<longrightarrow> a = p" by blast+
  from round53_bounds[OF rb] have b: "b \<le> 2 ^ 53"
    and sb: "sb = bit_length (a * 4953959590107546) - 53"
    and bq: "b \<le> a * 4953959590107546 div 2 ^ sb + 1" by blast+
  have blp: "bit_length p \<le> 1023" using assms by (rule bit_length_le)
  have bla: "bit_length a \<le> 54" using a by (rule bit_length_54)
  have blb: "bit_length b \<le> 54" using b by (rule bit_length_54)
  have 1: "bit_length a + sa \<le> 1024"
  proof (cases "sa = 0")
    case True
    with a0 blp show ?thesis by simp
  next
    case False
    with sa blp bla show ?thesis by simp
  qed
  have "a * 4953959590107546 \<le> 2 ^ 53 * 4953959590107546"
    using a by (rule mult_right_mono) simp
  then have am: "a * 4953959590107546 < 2 ^ 106" by simp
  then have blm: "bit_length (a * 4953959590107546) \<le> 106" by (rule bit_length_le)
  have 2: "bit_length b + sb \<le> 106"
  proof (cases "sb = 53")
    case True
    have "a * 4953959590107546 div 2 ^ 53 \<le> 2 ^ 53 * 4953959590107546 div 2 ^ 53"
      using \<open>a * 4953959590107546 \<le> 2 ^ 53 * 4953959590107546\<close> by (rule zdiv_mono1) simp
    then have "a * 4953959590107546 div 2 ^ 53 \<le> 4953959590107546" by simp
    with bq True have "b < 2 ^ 53" by simp
    then have "bit_length b \<le> 53" by (rule bit_length_le)
    with True show ?thesis by simp
  next
    case False
    with sb blm have "sb \<le> 52" by simp
    with blb show ?thesis by simp
  qed
  have sa': "sa \<le> 970" using sa blp by simp
  from 2 sa' have 3: "bit_length b + sa + sb \<le> 1076" by simp
  from 1 3 show ?thesis
    unfolding min_consumers_of_def ra by (simp add: rb)
qed

text \<open>
  C8, as stated, fails: with 1000 places and \<open>2^1024\<close> producers, no consumer and no
  timestep, the consumer minimum and the timestep minimum are violated, and line 57 raises
  \<open>OverflowError\<close>, which names no constraint.
\<close>

theorem validation_overflow_counterexample:
  "(0::int) < 1000000 \<and>
   ProductionLine_init 1000 (2 ^ 1024) 0 0 True = Inl OverflowError"
  using min_consumers_overflow[of 1024]
  by (simp add: ProductionLine_init_def validate_parameters_def)

text \<open>
  C8, amended. With \<open>validate=True\<close> and fewer than \<open>2^1023\<close> producers, construction
  raises \<open>ValueError\<close> whenever a validated parameter is below its minimum (buffer capacity
  1000, 200 producers, the consumer minimum of line 57, 1000000 timesteps); no object is
  constructed, and the error names a minimum that is violated.
\<close>

theorem validation_raises:
  assumes "cap < 1000 \<or> np < 200 \<or> (\<exists>m. min_consumers_of np = Inr m \<and> nc < m) \<or> tt < 1000000"
    and "np < 2 ^ 1023"
  shows "\<exists>v. ProductionLine_init cap np nc tt True = Inl (ValueError v) \<and>
           (v = BufferCapacityMin \<and> cap < 1000 \<or>
            v = ProducersMin \<and> np < 200 \<or>
            (\<exists>m. v = ConsumersMin m \<and> min_consumers_of np = Inr m \<and> nc < m) \<or>
            v = TimestepsMin \<and> tt < 1000000)"
proof -
  from min_consumers_defined[OF assms(2)] obtain m where m: "min_consumers_of np = Inr m" ..
  with assms(1) show ?thesis
    by (auto simp: ProductionLine_init_def validate_parameters_def)
qed

text \<open>The scenario of the specification: capacity 1 is refused, naming the buffer minimum.\<close>

theorem validation_raises_witness:
  "(1::int) < 1000 \<and> (1::int) < 2 ^ 1023 \<and>
   ProductionLine_init 1 1 1 1000000 True = Inl (ValueError BufferCapacityMin)"
  using validation_raises [of 1 1 1 1000000]
  by (simp add: ProductionLine_init_def validate_parameters_def)

section \<open>Steps, locks and the critical section\<close>

lemmas step_defs = step_def producer_step_def consumer_step_def main_step_def
  should_continue_step_def set_ppc_def set_cpc_def

lemmas run_defs = new_line_def numeral_eq_Suc step_defs completed_def all_joined_def

lemma init_new_line:
  assumes "ProductionLine_init cap np nc tt v = Inr l0"
  shows "l0 = new_line cap np nc tt \<and> 0 \<le> cap"
  using assms by (auto simp: ProductionLine_init_def split: option.splits if_splits)

text \<open>A step of one thread leaves the control points of all other threads alone.\<close>

lemma step_frame:
  assumes "step l t = Some l'" "t' \<noteq> t"
  shows "pc_of l' t' = pc_of l t'"
proof (cases t)
  case (Producer i)
  with assms(1)[symmetric] assms(2) show ?thesis
    unfolding step_defs pc_of_def
    by (cases "producer_pc l i"; cases t') (simp_all split: if_splits sc_pc.splits)
next
  case (Consumer i)
  with assms(1)[symmetric] assms(2) show ?thesis
    unfolding step_defs pc_of_def
    by (cases "consumer_pc l i"; cases t') (simp_all split: if_splits sc_pc.splits list.splits)
next
  case Main
  with assms(1)[symmetric] assms(2) show ?thesis
    unfolding step_defs pc_of_def
    by (cases "main_pc l"; cases t') (simp_all split: if_splits)
qed

lemma step_config:
  assumes "step l t = Some l'"
  shows "same_config l l'"
proof (cases t)
  case (Producer i)
  with assms[symmetric] show ?thesis
    unfolding step_defs same_config_def
    by (cases "producer_pc l i") (simp_all split: if_splits sc_pc.splits)
next
  case (Consumer i)
  with assms[symmetric] show ?thesis
    unfolding step_defs same_config_def
    by (cases "consumer_pc l i") (simp_all split: if_splits sc_pc.splits list.splits)
next
  case Main
  with assms[symmetric] show ?thesis
    unfolding step_defs same_config_def
    by (cases "main_pc l") (simp_all split: if_splits)
qed

lemma step_spawned: "step l t = Some l' \<Longrightarrow> spawned l t"
  by (cases t) (simp_all add: step_def spawned_def split: if_splits)

lemma reachable_config: "reachable l0 l \<Longrightarrow> same_config l0 l"
proof (induction rule: reachable.induct)
  case reach_init
  show ?case by (simp add: same_config_def)
next
  case (reach_step l t l')
  with step_config[OF reach_step.hyps(2)] show ?case by (simp add: same_config_def)
qed

lemma step_locks:
  assumes "step l t = Some l'"
  shows "lock_move (mutex l) (mutex l') t (holds_mutex (pc_of l t)) (holds_mutex (pc_of l' t)) \<and>
         lock_move (timestep_lock l) (timestep_lock l') t
           (holds_timestep_lock (pc_of l t)) (holds_timestep_lock (pc_of l' t)) \<and>
         lock_move (stats_lock l) (stats_lock l') t
           (holds_stats_lock (pc_of l t)) (holds_stats_lock (pc_of l' t))"
proof (cases t)
  case (Producer i)
  with assms[symmetric] show ?thesis
    unfolding step_defs pc_of_def lock_move_def
    by (cases "producer_pc l i") (simp_all split: if_splits sc_pc.splits)
next
  case (Consumer i)
  with assms[symmetric] show ?thesis
    unfolding step_defs pc_of_def lock_move_def
    by (cases "consumer_pc l i") (simp_all split: if_splits sc_pc.splits list.splits)
next
  case Main
  with assms[symmetric] show ?thesis
    unfolding step_defs pc_of_def lock_move_def
    by (cases "main_pc l") (simp_all split: if_splits)
qed

lemma lock_move_inv:
  assumes "lock_move k k' t (h t) (h' t)" "\<forall>u. h u = (k = Some u)" "\<forall>u. u \<noteq> t \<longrightarrow> h' u = h u"
  shows "h' u = (k' = Some u)"
  using assms unfolding lock_move_def by (cases "u = t") auto

lemma lock_inv_step:
  assumes "lock_inv l" "step l t = Some l'"
  shows "lock_inv l'"
  unfolding lock_inv_def
proof (intro conjI allI)
  fix u
  note fr = step_frame[OF assms(2)]
  note mv = step_locks[OF assms(2)]
  show "holds_mutex (pc_of l' u) = (mutex l' = Some u)"
    by (rule lock_move_inv[where h = "\<lambda>u. holds_mutex (pc_of l u)"
          and h' = "\<lambda>u. holds_mutex (pc_of l' u)" and t = t and k = "mutex l"])
       (use assms(1) fr mv in \<open>simp_all add: lock_inv_def\<close>)
  show "holds_timestep_lock (pc_of l' u) = (timestep_lock l' = Some u)"
    by (rule lock_move_inv[where h = "\<lambda>u. holds_timestep_lock (pc_of l u)"
          and h' = "\<lambda>u. holds_timestep_lock (pc_of l' u)" and t = t and k = "timestep_lock l"])
       (use assms(1) fr mv in \<open>simp_all add: lock_inv_def\<close>)
  show "holds_stats_lock (pc_of l' u) = (stats_lock l' = Some u)"
    by (rule lock_move_inv[where h = "\<lambda>u. holds_stats_lock (pc_of l u)"
          and h' = "\<lambda>u. holds_stats_lock (pc_of l' u)" and t = t and k = "stats_lock l"])
       (use assms(1) fr mv in \<open>simp_all add: lock_inv_def\<close>)
qed

lemma lock_inv_new_line: "lock_inv (new_line cap np nc tt)"
  by (auto simp: lock_inv_def new_line_def pc_of_def split: tid.splits)

lemma reachable_lock_inv:
  assumes "reachable (new_line cap np nc tt) l"
  shows "lock_inv l"
  using assms by (induction rule: reachable.induct) (auto intro: lock_inv_new_line lock_inv_step)

lemma execution_reachable: "execution l0 l ps cs \<Longrightarrow> reachable l0 l"
  by (induction rule: execution.induct) (auto intro: reachable.intros)

lemma reachable_execution: "reachable l0 l \<Longrightarrow> \<exists>ps cs. execution l0 l ps cs"
  by (induction rule: reachable.induct) (auto intro: execution.intros)

lemma run_reachable: "reachable l0 l \<Longrightarrow> run l sched = Some l' \<Longrightarrow> reachable l0 l'"
proof (induction sched arbitrary: l)
  case Nil
  then show ?case by simp
next
  case (Cons t ts)
  then show ?case by (auto split: option.splits intro: reachable.reach_step)
qed

lemma run_log_execution:
  "execution l0 l ps cs \<Longrightarrow> run_log l ps cs sched = Some (l', ps', cs') \<Longrightarrow>
   execution l0 l' ps' cs'"
proof (induction sched arbitrary: l ps cs)
  case Nil
  then show ?case by simp
next
  case (Cons t ts)
  then show ?case by (auto split: option.splits intro: execution.exec_step)
qed

text \<open>
  A step either stays inside the buffer's critical section, or leaves the buffer, the
  statistics and the timestep as they are.
\<close>

lemma step_outside:
  assumes "step l t = Some l'"
  shows "(holds_mutex (pc_of l t) \<and> holds_mutex (pc_of l' t)) \<or>
         (same_data l l' \<and> (holds_mutex (pc_of l t) \<longrightarrow> idle (pc_of l t)) \<and>
          (holds_mutex (pc_of l' t) \<longrightarrow> idle (pc_of l' t)))"
proof (cases t)
  case (Producer i)
  with assms[symmetric] show ?thesis
    unfolding step_defs pc_of_def same_data_def
    by (cases "producer_pc l i") (simp_all split: if_splits sc_pc.splits)
next
  case (Consumer i)
  with assms[symmetric] show ?thesis
    unfolding step_defs pc_of_def same_data_def
    by (cases "consumer_pc l i") (simp_all split: if_splits sc_pc.splits list.splits)
next
  case Main
  with assms[symmetric] show ?thesis
    unfolding step_defs pc_of_def same_data_def
    by (cases "main_pc l") (simp_all split: if_splits)
qed

lemma critical_pc_holder: "lock_inv l \<Longrightarrow> holds_mutex (pc_of l t) \<Longrightarrow> critical_pc l = pc_of l t"
  by (simp add: lock_inv_def critical_pc_def)

lemma critical_pc_free: "mutex l = None \<Longrightarrow> critical_pc l = WP W_Done"
  by (simp add: critical_pc_def)

lemma critical_step:
  assumes li: "lock_inv l" and st: "step l t = Some l'"
  shows "(holds_mutex (pc_of l t) \<and> holds_mutex (pc_of l' t) \<and>
          critical_pc l = pc_of l t \<and> critical_pc l' = pc_of l' t) \<or>
         (same_data l l' \<and>
          (critical_pc l' = critical_pc l \<or> idle (critical_pc l) \<and> idle (critical_pc l')))"
proof -
  have li': "lock_inv l'" using li st by (rule lock_inv_step)
  from step_outside[OF st] show ?thesis
  proof
    assume "holds_mutex (pc_of l t) \<and> holds_mutex (pc_of l' t)"
    then show ?thesis using li li' by (simp add: critical_pc_holder)
  next
    assume out: "same_data l l' \<and> (holds_mutex (pc_of l t) \<longrightarrow> idle (pc_of l t)) \<and>
          (holds_mutex (pc_of l' t) \<longrightarrow> idle (pc_of l' t))"
    have mv: "lock_move (mutex l) (mutex l') t (holds_mutex (pc_of l t)) (holds_mutex (pc_of l' t))"
      using step_locks[OF st] by simp
    have "critical_pc l' = critical_pc l \<or> idle (critical_pc l) \<and> idle (critical_pc l')"
    proof (cases "mutex l'")
      case None
      then have c': "critical_pc l' = WP W_Done" by (rule critical_pc_free)
      show ?thesis
      proof (cases "mutex l")
        case None
        then show ?thesis using c' by (simp add: critical_pc_free)
      next
        case (Some u)
        with mv \<open>mutex l' = None\<close> have "holds_mutex (pc_of l t)"
          by (auto simp: lock_move_def)
        then show ?thesis using out c' li by (simp add: critical_pc_holder)
      qed
    next
      case (Some u)
      show ?thesis
      proof (cases "u = t")
        case True
        with Some li' have h': "holds_mutex (pc_of l' t)" by (simp add: lock_inv_def)
        then have i': "idle (critical_pc l')" using out li' by (simp add: critical_pc_holder)
        show ?thesis
        proof (cases "mutex l")
          case None
          then show ?thesis using i' by (simp add: critical_pc_free)
        next
          case (Some w)
          with mv h' have "holds_mutex (pc_of l t)"
            by (auto simp: lock_move_def)
          then show ?thesis using out i' li by (simp add: critical_pc_holder)
        qed
      next
        case False
        with Some mv have "mutex l = Some u"
          by (auto simp: lock_move_def)
        with Some False step_frame[OF st, of u] show ?thesis
          by (simp add: critical_pc_def)
      qed
    qed
    with out show ?thesis by simp
  qed
qed

lemma same_data_logs: "same_data l l' \<Longrightarrow> grown l l' = [] \<and> shrunk l l' = []"
  by (simp add: same_data_def grown_def shrunk_def)

text \<open>
  The induction principle for invariants of the shared data: it suffices to look at the
  steps inside the critical section, one thread at a time.
\<close>

lemma critical_induct:
  assumes ex: "execution (new_line cap np nc tt) l ps cs"
    and base: "Q (WP W_Done) (new_line cap np nc tt) [] []"
    and crit: "\<And>l t l' ps cs. step l t = Some l' \<Longrightarrow> same_config l l' \<Longrightarrow>
        holds_mutex (pc_of l t) \<Longrightarrow> holds_mutex (pc_of l' t) \<Longrightarrow>
        Q (pc_of l t) l ps cs \<Longrightarrow> Q (pc_of l' t) l' (ps @ grown l l') (cs @ shrunk l l')"
    and data: "\<And>c l l' ps cs. same_data l l' \<Longrightarrow> same_config l l' \<Longrightarrow> Q c l ps cs \<Longrightarrow> Q c l' ps cs"
    and idle: "\<And>c c' l ps cs. idle c \<Longrightarrow> idle c' \<Longrightarrow> Q c l ps cs \<Longrightarrow> Q c' l ps cs"
  shows "Q (critical_pc l) l ps cs"
  using ex
proof (induction rule: execution.induct)
  case exec_init
  show ?case
    unfolding critical_pc_def new_line_def
    using base[unfolded new_line_def] by simp
next
  case (exec_step l ps cs t l')
  have li: "lock_inv l"
    using exec_step.hyps(1) by (auto dest: execution_reachable reachable_lock_inv)
  note st = exec_step.hyps(2)
  note cf = step_config[OF st]
  from critical_step[OF li st] show ?case
  proof
    assume "holds_mutex (pc_of l t) \<and> holds_mutex (pc_of l' t) \<and>
          critical_pc l = pc_of l t \<and> critical_pc l' = pc_of l' t"
    then have h: "holds_mutex (pc_of l t)" and h': "holds_mutex (pc_of l' t)"
      and c: "critical_pc l = pc_of l t" and c': "critical_pc l' = pc_of l' t"
      by simp_all
    have "Q (pc_of l t) l ps cs" using exec_step.IH unfolding c .
    from crit[OF st cf h h' this] show ?case unfolding c' .
  next
    assume "same_data l l' \<and>
          (critical_pc l' = critical_pc l \<or> idle (critical_pc l) \<and> idle (critical_pc l'))"
    then have d: "same_data l l'"
      and a: "critical_pc l' = critical_pc l \<or> idle (critical_pc l) \<and> idle (critical_pc l')"
      by simp_all
    have "Q (critical_pc l') l ps cs"
      using a
    proof
      assume "critical_pc l' = critical_pc l"
      then show ?thesis using exec_step.IH by simp
    next
      assume "idle (critical_pc l) \<and> idle (critical_pc l')"
      then show ?thesis using idle[OF _ _ exec_step.IH] by blast
    qed
    from data[OF d cf this] show ?case
      using same_data_logs[OF d] by simp
  qed
qed

lemma unspawned_idle:
  assumes "reachable (new_line cap np nc tt) l" "\<not> spawned l t"
  shows "\<not> holds_mutex (pc_of l t)"
proof -
  have "\<not> spawned l t \<longrightarrow> pc_of l t = pc_of (new_line cap np nc tt) t"
    using assms(1)
  proof (induction rule: reachable.induct)
    case reach_init
    show ?case by simp
  next
    case (reach_step l u l')
    have "spawned l' t = spawned l t"
      using step_config[OF reach_step.hyps(2)]
      by (cases t) (simp_all add: spawned_def same_config_def)
    moreover have "\<not> spawned l t \<Longrightarrow> pc_of l' t = pc_of l t"
      using step_frame[OF reach_step.hyps(2), of t] step_spawned[OF reach_step.hyps(2)] by auto
    ultimately show ?case using reach_step.IH by simp
  qed
  with assms(2) show ?thesis by (cases t) (simp_all add: pc_of_def new_line_def)
qed

lemma joined_mutex_free:
  assumes "reachable (new_line cap np nc tt) l" "all_joined l"
  shows "mutex l = None"
proof (cases "mutex l")
  case None
  then show ?thesis .
next
  case (Some t)
  with reachable_lock_inv[OF assms(1)] have h: "holds_mutex (pc_of l t)"
    by (simp add: lock_inv_def)
  have "spawned l t" using unspawned_idle[OF assms(1)] h by blast
  with assms(2) have "\<not> holds_mutex (pc_of l t)"
    by (cases t) (simp_all add: spawned_def all_joined_def pc_of_def zless_nat_eq_int_zless)
  with h show ?thesis by simp
qed

subsection \<open>Lock discipline\<close>

lemma step_stats:
  assumes "step l t = Some l'" "stats l' \<noteq> stats l"
  shows "holds_stats_lock (pc_of l t)"
proof (cases t)
  case (Producer i)
  with assms(1)[symmetric] assms(2) show ?thesis
    unfolding step_defs pc_of_def
    by (cases "producer_pc l i") (simp_all split: if_splits sc_pc.splits)
next
  case (Consumer i)
  with assms(1)[symmetric] assms(2) show ?thesis
    unfolding step_defs pc_of_def
    by (cases "consumer_pc l i") (simp_all split: if_splits sc_pc.splits list.splits)
next
  case Main
  with assms(1)[symmetric] assms(2) show ?thesis
    unfolding step_defs pc_of_def
    by (cases "main_pc l") (simp_all split: if_splits)
qed

lemma step_takes_mutex:
  assumes "step l t = Some l'" "mutex l' = Some t" "mutex l \<noteq> Some t"
  shows "pc_of l t = PP P_Mutex \<or> pc_of l t = CP C_Mutex"
proof (cases t)
  case (Producer i)
  with assms(1)[symmetric] assms(2-) show ?thesis
    unfolding step_defs pc_of_def
    by (cases "producer_pc l i") (simp_all split: if_splits sc_pc.splits)
next
  case (Consumer i)
  with assms(1)[symmetric] assms(2-) show ?thesis
    unfolding step_defs pc_of_def
    by (cases "consumer_pc l i") (simp_all split: if_splits sc_pc.splits list.splits)
next
  case Main
  with assms(1)[symmetric] assms(2-) show ?thesis
    unfolding step_defs pc_of_def
    by (cases "main_pc l") (simp_all split: if_splits)
qed

lemma stats_lock_inside: "holds_stats_lock c \<Longrightarrow> holds_mutex c \<and> \<not> holds_timestep_lock c"
  by (cases c rule: holds_stats_lock.cases) simp_all

text \<open>
  C4, as stated, fails: in the run of the example configuration of \<open>main\<close>, after ten
  steps producer 0 holds the buffer mutex and the timestep lock (line 135 inside the block
  of line 132), and after thirteen steps the buffer mutex and the statistics lock
  (line 140 inside the same block).
\<close>

theorem lock_nesting_counterexample:
  "map_option lock_owners (run (new_line 10 2 3 100) (replicate 10 (Producer 0)))
     = Some (Some (Producer 0), Some (Producer 0), None) \<and>
   map_option lock_owners (run (new_line 10 2 3 100) (replicate 13 (Producer 0)))
     = Some (Some (Producer 0), None, Some (Producer 0))"
  by (simp add: lock_owners_def new_line_def numeral_eq_Suc step_defs)

text \<open>
  C4, amended. A worker never holds the timestep lock and the statistics lock together,
  so it holds at most two of the three locks; it holds the statistics lock only inside the
  buffer mutex; every update of the statistics happens while the worker holds both the
  buffer mutex and the statistics lock; and the buffer mutex is only taken by a thread
  that holds no other lock, so the locks are always taken in the same order.
\<close>

theorem lock_nesting:
  assumes "ProductionLine_init cap np nc tt v = Inr l0" and "reachable l0 l"
  shows "\<not> (timestep_lock l = Some t \<and> stats_lock l = Some t) \<and>
         (stats_lock l = Some t \<longrightarrow> mutex l = Some t) \<and>
         (\<forall>l'. step l t = Some l' \<longrightarrow> stats l' \<noteq> stats l \<longrightarrow>
            mutex l = Some t \<and> stats_lock l = Some t) \<and>
         (\<forall>l'. step l t = Some l' \<longrightarrow> mutex l' = Some t \<longrightarrow> mutex l \<noteq> Some t \<longrightarrow>
            timestep_lock l \<noteq> Some t \<and> stats_lock l \<noteq> Some t)"
proof -
  from init_new_line[OF assms(1)] have l0: "l0 = new_line cap np nc tt" by simp
  note li = reachable_lock_inv[OF assms(2)[unfolded l0]]
  have m: "(mutex l = Some t) = holds_mutex (pc_of l t)"
    and ts: "(timestep_lock l = Some t) = holds_timestep_lock (pc_of l t)"
    and s: "(stats_lock l = Some t) = holds_stats_lock (pc_of l t)"
    using li by (simp_all add: lock_inv_def)
  have a: "\<not> (timestep_lock l = Some t \<and> stats_lock l = Some t)"
    unfolding ts s using stats_lock_inside by blast
  have b: "stats_lock l = Some t \<longrightarrow> mutex l = Some t"
    unfolding m s using stats_lock_inside by blast
  have c: "\<forall>l'. step l t = Some l' \<longrightarrow> stats l' \<noteq> stats l \<longrightarrow>
            mutex l = Some t \<and> stats_lock l = Some t"
    unfolding m s using step_stats stats_lock_inside by blast
  have d: "\<forall>l'. step l t = Some l' \<longrightarrow> mutex l' = Some t \<longrightarrow> mutex l \<noteq> Some t \<longrightarrow>
            timestep_lock l \<noteq> Some t \<and> stats_lock l \<noteq> Some t"
  proof (intro allI impI)
    fix l'
    assume "step l t = Some l'" "mutex l' = Some t" "mutex l \<noteq> Some t"
    from step_takes_mutex[OF this] show "timestep_lock l \<noteq> Some t \<and> stats_lock l \<noteq> Some t"
      unfolding ts s by auto
  qed
  show ?thesis by (intro conjI; fact)
qed

theorem lock_nesting_witness:
  "\<exists>l l'. ProductionLine_init 10 2 3 100 False = Inr (new_line 10 2 3 100) \<and>
     run (new_line 10 2 3 100) (replicate 13 (Producer 0)) = Some l \<and>
     stats_lock l = Some (Producer 0) \<and> mutex l = Some (Producer 0) \<and>
     timestep_lock l \<noteq> Some (Producer 0) \<and>
     step l (Producer 0) = Some l' \<and> stats l' \<noteq> stats l"
proof -
  have i: "ProductionLine_init 10 2 3 100 False = Inr (new_line 10 2 3 100)"
    by (simp add: ProductionLine_init_def)
  have "\<exists>l l'. run (new_line 10 2 3 100) (replicate 13 (Producer 0)) = Some l \<and>
     stats_lock l = Some (Producer 0) \<and> step l (Producer 0) = Some l' \<and> stats l' \<noteq> stats l"
    by (simp add: run_defs)
  then obtain l l' where r: "run (new_line 10 2 3 100) (replicate 13 (Producer 0)) = Some l"
    and s: "stats_lock l = Some (Producer 0)"
    and st: "step l (Producer 0) = Some l'" "stats l' \<noteq> stats l"
    by blast
  have "reachable (new_line 10 2 3 100) l"
    by (rule run_reachable[OF reachable.reach_init r])
  from lock_nesting[OF i this, of "Producer 0"] s
  have "mutex l = Some (Producer 0)" "timestep_lock l \<noteq> Some (Producer 0)" by auto
  with i r s st show ?thesis by blast
qed

section \<open>The buffer\<close>

lemma cap_ok_critical:
  assumes "step l t = Some l'" "holds_mutex (pc_of l t)" "holds_mutex (pc_of l' t)"
    "cap_ok (pc_of l t) l"
  shows "cap_ok (pc_of l' t) l'"
proof (cases t)
  case (Producer i)
  with assms(1)[symmetric] assms(2-) show ?thesis
    unfolding step_defs pc_of_def cap_ok_def
    by (cases "producer_pc l i") (simp_all split: if_splits sc_pc.splits)
next
  case (Consumer i)
  with assms(1)[symmetric] assms(2-) show ?thesis
    unfolding step_defs pc_of_def cap_ok_def
    by (cases "consumer_pc l i") (auto split: if_splits sc_pc.splits list.splits)
next
  case Main
  with assms(2) show ?thesis by (simp add: pc_of_def)
qed

lemma cap_ok_idle: "idle c \<Longrightarrow> idle c' \<Longrightarrow> cap_ok c l \<Longrightarrow> cap_ok c' l"
  by (cases c rule: idle.cases; cases c' rule: idle.cases) (simp_all add: cap_ok_def)

lemma cap_ok_data: "same_data l l' \<Longrightarrow> same_config l l' \<Longrightarrow> cap_ok c l \<Longrightarrow> cap_ok c l'"
  by (simp add: cap_ok_def same_data_def same_config_def)

lemma cap_ok_reachable:
  assumes "reachable (new_line cap np nc tt) l" "0 \<le> cap"
  shows "cap_ok (critical_pc l) l"
proof -
  from assms(1) obtain ps cs where ex: "execution (new_line cap np nc tt) l ps cs"
    by (auto dest: reachable_execution)
  show ?thesis
  proof (rule critical_induct[OF ex, where Q = "\<lambda>c l ps cs. cap_ok c l"])
    show "cap_ok (WP W_Done) (new_line cap np nc tt)"
      using assms(2) by (simp add: cap_ok_def new_line_def)
  qed (auto intro: cap_ok_critical cap_ok_idle cap_ok_data)
qed

text \<open>One pass of a producer through lines 132-152, alone, on either branch.\<close>

lemma producer_iteration:
  assumes "producer_pc l i = P_Mutex" "int i < num_producers l"
    "mutex l = None" "timestep_lock l = None" "stats_lock l = None"
  shows "\<exists>l'. run l (replicate (if int (length (buffer l)) < buffer_capacity l then 9 else 6)
                  (Producer i)) = Some l' \<and>
           producer_pc l' i = P_While SC_Running \<and>
           filled_slots l' = filled_slots l + 1 \<and> empty_slots l' = empty_slots l \<and>
           (if int (length (buffer l)) < buffer_capacity l
            then buffer l' = buffer l @ [Piece i (current_timestep l + 1)] \<and>
                 total_produced (stats l') = total_produced (stats l) + 1 \<and>
                 producer_waits (stats l') = producer_waits (stats l)
            else buffer l' = buffer l \<and>
                 total_produced (stats l') = total_produced (stats l) \<and>
                 producer_waits (stats l') = producer_waits (stats l) + 1)"
  using assms by (simp add: numeral_eq_Suc step_defs)

text \<open>One pass of a consumer through lines 173-187, alone, on either branch.\<close>

lemma consumer_iteration:
  assumes "consumer_pc l i = C_Mutex" "int i < num_consumers l"
    "mutex l = None" "stats_lock l = None"
  shows "\<exists>l'. run l (replicate (if buffer l \<noteq> [] then 7 else 6) (Consumer i)) = Some l' \<and>
           consumer_pc l' i = C_While SC_Running \<and>
           empty_slots l' = empty_slots l + 1 \<and> filled_slots l' = filled_slots l \<and>
           (if buffer l \<noteq> []
            then buffer l' = tl (buffer l) \<and>
                 total_consumed (stats l') = total_consumed (stats l) + 1 \<and>
                 consumer_waits (stats l') = consumer_waits (stats l)
            else buffer l' = buffer l \<and>
                 total_consumed (stats l') = total_consumed (stats l) \<and>
                 consumer_waits (stats l') = consumer_waits (stats l) + 1)"
  using assms by (cases "buffer l") (simp_all add: numeral_eq_Suc step_defs)

text \<open>
  C6. In every state of a run \<open>0 \<le> len(buffer) \<le> buffer_capacity\<close>, every step keeps it
  so, and every recorded snapshot lies in \<open>[0, buffer_capacity]\<close>; a unit is appended only
  where there is room, and \<open>pop(0)\<close> is only reached with a non-empty buffer. A produce
  attempt on a full buffer, from any state, ends the iteration with the buffer unchanged
  and \<open>producer_waits\<close> incremented.
\<close>

theorem capacity_invariant:
  assumes "ProductionLine_init cap np nc tt v = Inr l0" and "reachable l0 l"
  shows "0 \<le> int (length (buffer l)) \<and> int (length (buffer l)) \<le> buffer_capacity l \<and>
         (\<forall>x \<in> set (buffer_snapshots (stats l)). 0 \<le> x \<and> x \<le> buffer_capacity l) \<and>
         (\<forall>t l'. step l t = Some l' \<longrightarrow> int (length (buffer l')) \<le> buffer_capacity l') \<and>
         (\<forall>i ts. producer_pc l i = P_Append ts \<longrightarrow> int (length (buffer l)) < buffer_capacity l) \<and>
         (\<forall>i. consumer_pc l i = C_Pop \<longrightarrow> buffer l \<noteq> []) \<and>
         (\<forall>k i. producer_pc k i = P_Mutex \<and> int i < num_producers k \<and> mutex k = None \<and>
            timestep_lock k = None \<and> stats_lock k = None \<and>
            int (length (buffer k)) = buffer_capacity k \<longrightarrow>
            (\<exists>k'. run k (replicate 6 (Producer i)) = Some k' \<and>
               producer_pc k' i = P_While SC_Running \<and> buffer k' = buffer k \<and>
               total_produced (stats k') = total_produced (stats k) \<and>
               producer_waits (stats k') = producer_waits (stats k) + 1))"
proof -
  from init_new_line[OF assms(1)] have l0: "l0 = new_line cap np nc tt" and cap: "0 \<le> cap"
    by simp_all
  note r = assms(2)[unfolded l0]
  note li = reachable_lock_inv[OF r]
  note ok = cap_ok_reachable[OF r cap]
  have a: "0 \<le> int (length (buffer l))" by simp
  have b: "int (length (buffer l)) \<le> buffer_capacity l"
    and c: "\<forall>x \<in> set (buffer_snapshots (stats l)). 0 \<le> x \<and> x \<le> buffer_capacity l"
    using ok by (simp_all add: cap_ok_def)
  have d: "\<forall>t l'. step l t = Some l' \<longrightarrow> int (length (buffer l')) \<le> buffer_capacity l'"
  proof (intro allI impI)
    fix t l' assume "step l t = Some l'"
    with r have "reachable (new_line cap np nc tt) l'" by (rule reachable.reach_step)
    from cap_ok_reachable[OF this cap] show "int (length (buffer l')) \<le> buffer_capacity l'"
      by (simp add: cap_ok_def)
  qed
  have e: "\<forall>i ts. producer_pc l i = P_Append ts \<longrightarrow> int (length (buffer l)) < buffer_capacity l"
  proof (intro allI impI)
    fix i ts assume "producer_pc l i = P_Append ts"
    then have p: "pc_of l (Producer i) = PP (P_Append ts)" by (simp add: pc_of_def)
    then have "critical_pc l = PP (P_Append ts)"
      using critical_pc_holder[OF li, of "Producer i"] by simp
    with ok show "int (length (buffer l)) < buffer_capacity l" by (simp add: cap_ok_def)
  qed
  have f: "\<forall>i. consumer_pc l i = C_Pop \<longrightarrow> buffer l \<noteq> []"
  proof (intro allI impI)
    fix i assume "consumer_pc l i = C_Pop"
    then have p: "pc_of l (Consumer i) = CP C_Pop" by (simp add: pc_of_def)
    then have "critical_pc l = CP C_Pop"
      using critical_pc_holder[OF li, of "Consumer i"] by simp
    with ok show "buffer l \<noteq> []" by (simp add: cap_ok_def)
  qed
  have g: "\<forall>k i. producer_pc k i = P_Mutex \<and> int i < num_producers k \<and> mutex k = None \<and>
            timestep_lock k = None \<and> stats_lock k = None \<and>
            int (length (buffer k)) = buffer_capacity k \<longrightarrow>
            (\<exists>k'. run k (replicate 6 (Producer i)) = Some k' \<and>
               producer_pc k' i = P_While SC_Running \<and> buffer k' = buffer k \<and>
               total_produced (stats k') = total_produced (stats k) \<and>
               producer_waits (stats k') = producer_waits (stats k) + 1)"
  proof (intro allI impI)
    fix k :: ProductionLine and i
    assume h: "producer_pc k i = P_Mutex \<and> int i < num_producers k \<and> mutex k = None \<and>
            timestep_lock k = None \<and> stats_lock k = None \<and>
            int (length (buffer k)) = buffer_capacity k"
    with producer_iteration[of k i]
    show "\<exists>k'. run k (replicate 6 (Producer i)) = Some k' \<and>
               producer_pc k' i = P_While SC_Running \<and> buffer k' = buffer k \<and>
               total_produced (stats k') = total_produced (stats k) \<and>
               producer_waits (stats k') = producer_waits (stats k) + 1"
      by auto
  qed
  show ?thesis by (intro conjI; fact)
qed

theorem capacity_invariant_witness:
  "\<exists>l k'. ProductionLine_init 1 1 1 2 False = Inr (new_line 1 1 1 2) \<and>
     run (new_line 1 1 1 2) (replicate 16 (Producer 0)) = Some l \<and>
     length (buffer l) = 1 \<and> buffer_snapshots (stats l) = [1] \<and>
     int (length (buffer l)) \<le> buffer_capacity l \<and>
     (\<forall>x \<in> set (buffer_snapshots (stats l)). 0 \<le> x \<and> x \<le> buffer_capacity l) \<and>
     int (length (buffer rejected_line)) = buffer_capacity rejected_line \<and>
     run rejected_line (replicate 6 (Producer 0)) = Some k' \<and>
     buffer k' = buffer rejected_line"
proof -
  have i: "ProductionLine_init 1 1 1 2 False = Inr (new_line 1 1 1 2)"
    by (simp add: ProductionLine_init_def)
  have "\<exists>l. run (new_line 1 1 1 2) (replicate 16 (Producer 0)) = Some l \<and>
     length (buffer l) = 1 \<and> buffer_snapshots (stats l) = [1]"
    by (simp add: run_defs)
  then obtain l where r: "run (new_line 1 1 1 2) (replicate 16 (Producer 0)) = Some l"
    and v: "length (buffer l) = 1" "buffer_snapshots (stats l) = [1]"
    by blast
  have "reachable (new_line 1 1 1 2) l"
    by (rule run_reachable[OF reachable.reach_init r])
  note ci = capacity_invariant[OF i this]
  have 1: "int (length (buffer l)) \<le> buffer_capacity l"
    "\<forall>x \<in> set (buffer_snapshots (stats l)). 0 \<le> x \<and> x \<le> buffer_capacity l"
    using ci by blast+
  have h: "producer_pc rejected_line 0 = P_Mutex \<and> int 0 < num_producers rejected_line \<and>
      mutex rejected_line = None \<and> timestep_lock rejected_line = None \<and>
      stats_lock rejected_line = None \<and>
      int (length (buffer rejected_line)) = buffer_capacity rejected_line"
    by (simp add: rejected_line_def new_line_def)
  with ci obtain k' where 2: "run rejected_line (replicate 6 (Producer 0)) = Some k'"
    "buffer k' = buffer rejected_line"
    by blast
  from i r v 1 2 h show ?thesis by blast
qed

subsection \<open>The defensive branches\<close>

text \<open>Sums over the spawned threads, when one thread moves.\<close>

lemma sum_upd:
  fixes w :: "'a \<Rightarrow> int" and n :: nat
  assumes "i < n"
  shows "(\<Sum>j < n. w ((f(i := c)) j)) = (\<Sum>j < n. w (f j)) - w (f i) + w c"
proof -
  have "(\<Sum>j < n. w ((f(i := c)) j)) = w c + (\<Sum>j \<in> {..<n} - {i}. w ((f(i := c)) j))"
    using assms by (subst sum.remove[of "{..<n}" i]) simp_all
  also have "(\<Sum>j \<in> {..<n} - {i}. w ((f(i := c)) j)) = (\<Sum>j \<in> {..<n} - {i}. w (f j))"
    by (rule sum.cong) simp_all
  also have "(\<Sum>j < n. w (f j)) = w (f i) + (\<Sum>j \<in> {..<n} - {i}. w (f j))"
    using assms by (subst sum.remove[of "{..<n}" i]) simp_all
  then have "(\<Sum>j \<in> {..<n} - {i}. w (f j)) = (\<Sum>j < n. w (f j)) - w (f i)" by simp
  finally show ?thesis by simp
qed

lemma producer_count_upd:
  assumes "num_producers l' = num_producers l" "producer_pc l' = (producer_pc l)(i := c)"
    "int i < num_producers l"
  shows "producer_count w l' = producer_count w l - w (producer_pc l i) + w c"
  unfolding producer_count_def assms(1,2)
  by (rule sum_upd) (use assms(3) in \<open>simp add: zless_nat_eq_int_zless\<close>)

lemma consumer_count_upd:
  assumes "num_consumers l' = num_consumers l" "consumer_pc l' = (consumer_pc l)(i := c)"
    "int i < num_consumers l"
  shows "consumer_count w l' = consumer_count w l - w (consumer_pc l i) + w c"
  unfolding consumer_count_def assms(1,2)
  by (rule sum_upd) (use assms(3) in \<open>simp add: zless_nat_eq_int_zless\<close>)

lemma producer_count_same:
  "num_producers l' = num_producers l \<Longrightarrow> producer_pc l' = producer_pc l \<Longrightarrow> producer_count w l' = producer_count w l"
  by (simp add: producer_count_def)

lemma consumer_count_same:
  "num_consumers l' = num_consumers l \<Longrightarrow> consumer_pc l' = consumer_pc l \<Longrightarrow> consumer_count w l' = consumer_count w l"
  by (simp add: consumer_count_def)

lemma producer_count_ge:
  assumes "int i < num_producers l" "\<And>c. 0 \<le> w c"
  shows "w (producer_pc l i) \<le> producer_count w l"
  unfolding producer_count_def
  by (rule member_le_sum) (use assms in \<open>simp_all add: zless_nat_eq_int_zless\<close>)

lemma consumer_count_ge:
  assumes "int i < num_consumers l" "\<And>c. 0 \<le> w c"
  shows "w (consumer_pc l i) \<le> consumer_count w l"
  unfolding consumer_count_def
  by (rule member_le_sum) (use assms in \<open>simp_all add: zless_nat_eq_int_zless\<close>)

lemma producer_count_nonneg: "(\<And>c. 0 \<le> w c) \<Longrightarrow> 0 \<le> producer_count w l"
  unfolding producer_count_def by (rule sum_nonneg) simp

lemma consumer_count_nonneg: "(\<And>c. 0 \<le> w c) \<Longrightarrow> 0 \<le> consumer_count w l"
  unfolding consumer_count_def by (rule sum_nonneg) simp

lemma weights_nonneg:
  "0 \<le> p_entering p" "0 \<le> p_holding p" "0 \<le> p_signalling p" "0 \<le> c_entering c" "0 \<le> c_holding c" "0 \<le> c_signalling c"
  by (cases p rule: p_entering.cases, simp_all)
     (cases p rule: p_holding.cases, simp_all, cases p rule: p_signalling.cases, simp_all,
      cases c rule: c_entering.cases, simp_all, cases c rule: c_holding.cases, simp_all,
      cases c rule: c_signalling.cases, simp_all)

text \<open>What one step does to the permits, away from the defensive branches.\<close>

lemma producer_step_slots:
  assumes "producer_step i l = Some l'"
    and "producer_pc l i \<noteq> P_FullLock" "producer_pc l i \<noteq> P_FullRecord"
    and "producer_pc l i = P_Test \<longrightarrow> int (length (buffer l)) < buffer_capacity l"
  shows "producer_pc l' = (producer_pc l)(i := producer_pc l' i) \<and>
     consumer_pc l' = consumer_pc l \<and> main_pc l' = main_pc l \<and>
     producer_pc l' i \<noteq> P_FullLock \<and> producer_pc l' i \<noteq> P_FullRecord \<and>
     producer_waits (stats l') = producer_waits (stats l) \<and>
     consumer_waits (stats l') = consumer_waits (stats l) \<and>
     current_timestep l \<le> current_timestep l' \<and>
     length (buffer l) \<le> length (buffer l') \<and>
     int (empty_slots l') + p_entering (producer_pc l' i) + p_holding (producer_pc l' i)
         + int (length (buffer l'))
       = int (empty_slots l) + p_entering (producer_pc l i) + p_holding (producer_pc l i)
         + int (length (buffer l)) \<and>
     int (filled_slots l') + p_signalling (producer_pc l' i) + int (length (buffer l))
       = int (filled_slots l) + p_signalling (producer_pc l i) + int (length (buffer l')) \<and>
     (int (length (buffer l')) + p_entering (producer_pc l' i)
        = int (length (buffer l)) + p_entering (producer_pc l i) \<or>
      current_timestep l < total_timesteps l \<and> p_holding (producer_pc l i) = 1 \<and>
      p_entering (producer_pc l i) = 0 \<and> p_entering (producer_pc l' i) = 1 \<and> buffer l' = buffer l)"
  using assms(1)[symmetric] assms(2-)
  unfolding producer_step_def should_continue_step_def set_ppc_def
  by (cases "producer_pc l i") (simp_all split: if_splits sc_pc.splits)

lemma consumer_step_slots:
  assumes "consumer_step i l = Some l'"
    and "consumer_pc l i \<noteq> C_EmptyLock" "consumer_pc l i \<noteq> C_EmptyRecord"
    and "consumer_pc l i = C_Test \<longrightarrow> buffer l \<noteq> []"
  shows "consumer_pc l' = (consumer_pc l)(i := consumer_pc l' i) \<and>
     producer_pc l' = producer_pc l \<and> main_pc l' = main_pc l \<and>
     consumer_pc l' i \<noteq> C_EmptyLock \<and> consumer_pc l' i \<noteq> C_EmptyRecord \<and>
     producer_waits (stats l') = producer_waits (stats l) \<and>
     consumer_waits (stats l') = consumer_waits (stats l) \<and>
     current_timestep l' = current_timestep l \<and>
     int (filled_slots l') + c_entering (consumer_pc l' i) + c_holding (consumer_pc l' i)
         + int (length (buffer l))
       = int (filled_slots l) + c_entering (consumer_pc l i) + c_holding (consumer_pc l i)
         + int (length (buffer l')) \<and>
     int (empty_slots l') + c_signalling (consumer_pc l' i) + int (length (buffer l'))
       = int (empty_slots l) + c_signalling (consumer_pc l i) + int (length (buffer l)) \<and>
     int (length (buffer l')) + c_signalling (consumer_pc l' i)
       \<le> int (length (buffer l)) + c_signalling (consumer_pc l i) \<and>
     (c_entering (consumer_pc l' i) + int (length (buffer l))
        = c_entering (consumer_pc l i) + int (length (buffer l')) \<or>
      current_timestep l < total_timesteps l \<and> c_holding (consumer_pc l i) = 1 \<and>
      c_entering (consumer_pc l i) = 0 \<and> c_entering (consumer_pc l' i) = 1 \<and> buffer l' = buffer l)"
  using assms(1)[symmetric] assms(2-)
  unfolding consumer_step_def should_continue_step_def set_cpc_def
  by (cases "consumer_pc l i") (auto split: if_splits sc_pc.splits list.splits)

lemma main_step_slots:
  assumes "main_step l = Some l'"
  shows "producer_pc l' = producer_pc l \<and> consumer_pc l' = consumer_pc l \<and>
     buffer l' = buffer l \<and> stats l' = stats l \<and> current_timestep l' = current_timestep l \<and>
     (polling (main_pc l') \<longrightarrow>
        polling (main_pc l) \<and> empty_slots l' = empty_slots l \<and> filled_slots l' = filled_slots l) \<and>
     (polling (main_pc l) \<longrightarrow> \<not> polling (main_pc l') \<longrightarrow>
        total_timesteps l \<le> current_timestep l)"
  using assms[symmetric] unfolding main_step_def
  by (cases "main_pc l") (simp_all split: if_splits)

text \<open>The permits are accounted for in every state of a run.\<close>

lemma slots_ok_producer:
  assumes ok: "slots_ok l" and st: "producer_step i l = Some l'"
    and sp: "int i < num_producers l" and cf: "same_config l l'"
  shows "slots_ok l'"
proof -
  note nn = weights_nonneg
  have dead: "producer_pc l i \<noteq> P_FullLock" "producer_pc l i \<noteq> P_FullRecord"
    using ok by (simp_all add: slots_ok_def)
  have A: "int (length (buffer l)) + producer_count p_entering l + consumer_count c_signalling l \<le> buffer_capacity l"
    and A2: "consumer_count c_entering l \<le> int (length (buffer l))"
    and B: "polling (main_pc l) \<longrightarrow>
        int (empty_slots l) + producer_count p_entering l + producer_count p_holding l + int (length (buffer l)) + consumer_count c_signalling l
          \<le> buffer_capacity l"
    and B2: "polling (main_pc l) \<longrightarrow>
        int (filled_slots l) + consumer_count c_entering l + consumer_count c_holding l + producer_count p_signalling l \<le> int (length (buffer l))"
    and P: "\<not> polling (main_pc l) \<longrightarrow> total_timesteps l \<le> current_timestep l"
    using ok by (simp_all add: slots_ok_def)
  have ce0: "0 \<le> consumer_count c_signalling l" by (rule consumer_count_nonneg) (rule nn)
  have room: "producer_pc l i = P_Test \<longrightarrow> int (length (buffer l)) < buffer_capacity l"
  proof
    assume "producer_pc l i = P_Test"
    then have "1 \<le> producer_count p_entering l" using producer_count_ge[OF sp, of p_entering] nn by simp
    with A ce0 show "int (length (buffer l)) < buffer_capacity l" by linarith
  qed
  note s0 = producer_step_slots[OF st dead room]
  from s0 have upd: "producer_pc l' = (producer_pc l)(i := producer_pc l' i)" by (rule conjunct1)
  from s0 have s: "consumer_pc l' = consumer_pc l \<and> main_pc l' = main_pc l \<and>
     producer_pc l' i \<noteq> P_FullLock \<and> producer_pc l' i \<noteq> P_FullRecord \<and>
     producer_waits (stats l') = producer_waits (stats l) \<and>
     consumer_waits (stats l') = consumer_waits (stats l) \<and>
     current_timestep l \<le> current_timestep l' \<and>
     length (buffer l) \<le> length (buffer l') \<and>
     int (empty_slots l') + p_entering (producer_pc l' i) + p_holding (producer_pc l' i)
         + int (length (buffer l'))
       = int (empty_slots l) + p_entering (producer_pc l i) + p_holding (producer_pc l i)
         + int (length (buffer l)) \<and>
     int (filled_slots l') + p_signalling (producer_pc l' i) + int (length (buffer l))
       = int (filled_slots l) + p_signalling (producer_pc l i) + int (length (buffer l')) \<and>
     (int (length (buffer l')) + p_entering (producer_pc l' i)
        = int (length (buffer l)) + p_entering (producer_pc l i) \<or>
      current_timestep l < total_timesteps l \<and> p_holding (producer_pc l i) = 1 \<and>
      p_entering (producer_pc l i) = 0 \<and> p_entering (producer_pc l' i) = 1 \<and> buffer l' = buffer l)"
    by (rule conjunct2)
  have np: "num_producers l' = num_producers l" and nc: "num_consumers l' = num_consumers l"
    and cap: "buffer_capacity l' = buffer_capacity l" and tt: "total_timesteps l' = total_timesteps l"
    using cf by (simp_all add: same_config_def)
  have pa: "producer_count p_entering l' = producer_count p_entering l - p_entering (producer_pc l i) + p_entering (producer_pc l' i)"
    and pd: "producer_count p_holding l' = producer_count p_holding l - p_holding (producer_pc l i) + p_holding (producer_pc l' i)"
    and pf: "producer_count p_signalling l' = producer_count p_signalling l - p_signalling (producer_pc l i) + p_signalling (producer_pc l' i)"
    by (rule producer_count_upd[OF np upd sp])+
  from s have c_same: "consumer_pc l' = consumer_pc l" by (rule conjunct1)
  have cs: "consumer_count c_entering l' = consumer_count c_entering l" "consumer_count c_holding l' = consumer_count c_holding l" "consumer_count c_signalling l' = consumer_count c_signalling l"
    by (rule consumer_count_same[OF nc c_same])+
  have pdge: "p_holding (producer_pc l i) \<le> producer_count p_holding l" by (rule producer_count_ge[OF sp]) (rule nn)
  have E0: "0 \<le> int (empty_slots l)" by simp
  have D1: "\<forall>j. producer_pc l' j \<noteq> P_FullLock \<and> producer_pc l' j \<noteq> P_FullRecord"
  proof
    fix j
    show "producer_pc l' j \<noteq> P_FullLock \<and> producer_pc l' j \<noteq> P_FullRecord"
    proof (cases "j = i")
      case True
      with s show ?thesis by simp
    next
      case False
      have "producer_pc l' j = producer_pc l j" by (subst upd) (use False in simp)
      with ok show ?thesis by (simp add: slots_ok_def)
    qed
  qed
  have D2: "\<forall>j. consumer_pc l' j \<noteq> C_EmptyLock \<and> consumer_pc l' j \<noteq> C_EmptyRecord"
    using s ok by (simp add: slots_ok_def)
  have W: "producer_waits (stats l') = 0 \<and> consumer_waits (stats l') = 0"
    using s ok by (simp add: slots_ok_def)
  have mp: "main_pc l' = main_pc l" using s by simp
  have A': "int (length (buffer l')) + producer_count p_entering l' + consumer_count c_signalling l' \<le> buffer_capacity l'"
  proof -
    from s have "int (length (buffer l')) + p_entering (producer_pc l' i)
        = int (length (buffer l)) + p_entering (producer_pc l i) \<or>
      current_timestep l < total_timesteps l \<and> p_holding (producer_pc l i) = 1 \<and>
      p_entering (producer_pc l i) = 0 \<and> p_entering (producer_pc l' i) = 1 \<and> buffer l' = buffer l"
      by simp
    then show ?thesis
    proof
      assume "int (length (buffer l')) + p_entering (producer_pc l' i)
        = int (length (buffer l)) + p_entering (producer_pc l i)"
      with A pa cs cap show ?thesis by linarith
    next
      assume h: "current_timestep l < total_timesteps l \<and> p_holding (producer_pc l i) = 1 \<and>
        p_entering (producer_pc l i) = 0 \<and> p_entering (producer_pc l' i) = 1 \<and> buffer l' = buffer l"
      with P have "polling (main_pc l)" by auto
      with B have "int (empty_slots l) + producer_count p_entering l + producer_count p_holding l + int (length (buffer l))
          + consumer_count c_signalling l \<le> buffer_capacity l" by simp
      with h pdge E0 pa cs cap show ?thesis by simp
    qed
  qed
  have A2': "consumer_count c_entering l' \<le> int (length (buffer l'))"
    using A2 cs s by simp
  have B': "polling (main_pc l') \<longrightarrow>
        int (empty_slots l') + producer_count p_entering l' + producer_count p_holding l' + int (length (buffer l')) + consumer_count c_signalling l'
          \<le> buffer_capacity l'"
    using B s pa pd cs cap mp by (simp add: algebra_simps) linarith
  have B2': "polling (main_pc l') \<longrightarrow>
        int (filled_slots l') + consumer_count c_entering l' + consumer_count c_holding l' + producer_count p_signalling l' \<le> int (length (buffer l'))"
    using B2 s pf cs mp by (simp add: algebra_simps) linarith
  have P': "\<not> polling (main_pc l') \<longrightarrow> total_timesteps l' \<le> current_timestep l'"
    using P s tt mp by auto
  show ?thesis
    unfolding slots_ok_def using D1 D2 W A' A2' B' B2' P' by blast
qed

lemma slots_ok_consumer:
  assumes ok: "slots_ok l" and st: "consumer_step i l = Some l'"
    and sp: "int i < num_consumers l" and cf: "same_config l l'"
  shows "slots_ok l'"
proof -
  note nn = weights_nonneg
  have dead: "consumer_pc l i \<noteq> C_EmptyLock" "consumer_pc l i \<noteq> C_EmptyRecord"
    using ok by (simp_all add: slots_ok_def)
  have A: "int (length (buffer l)) + producer_count p_entering l + consumer_count c_signalling l \<le> buffer_capacity l"
    and A2: "consumer_count c_entering l \<le> int (length (buffer l))"
    and B: "polling (main_pc l) \<longrightarrow>
        int (empty_slots l) + producer_count p_entering l + producer_count p_holding l + int (length (buffer l)) + consumer_count c_signalling l
          \<le> buffer_capacity l"
    and B2: "polling (main_pc l) \<longrightarrow>
        int (filled_slots l) + consumer_count c_entering l + consumer_count c_holding l + producer_count p_signalling l \<le> int (length (buffer l))"
    and P: "\<not> polling (main_pc l) \<longrightarrow> total_timesteps l \<le> current_timestep l"
    using ok by (simp_all add: slots_ok_def)
  have pf0: "0 \<le> producer_count p_signalling l" by (rule producer_count_nonneg) (rule nn)
  have nonempty: "consumer_pc l i = C_Test \<longrightarrow> buffer l \<noteq> []"
  proof
    assume "consumer_pc l i = C_Test"
    then have "1 \<le> consumer_count c_entering l" using consumer_count_ge[OF sp, of c_entering] nn by simp
    with A2 show "buffer l \<noteq> []" by auto
  qed
  note s0 = consumer_step_slots[OF st dead nonempty]
  from s0 have upd: "consumer_pc l' = (consumer_pc l)(i := consumer_pc l' i)" by (rule conjunct1)
  from s0 have s: "producer_pc l' = producer_pc l \<and> main_pc l' = main_pc l \<and>
     consumer_pc l' i \<noteq> C_EmptyLock \<and> consumer_pc l' i \<noteq> C_EmptyRecord \<and>
     producer_waits (stats l') = producer_waits (stats l) \<and>
     consumer_waits (stats l') = consumer_waits (stats l) \<and>
     current_timestep l' = current_timestep l \<and>
     int (filled_slots l') + c_entering (consumer_pc l' i) + c_holding (consumer_pc l' i)
         + int (length (buffer l))
       = int (filled_slots l) + c_entering (consumer_pc l i) + c_holding (consumer_pc l i)
         + int (length (buffer l')) \<and>
     int (empty_slots l') + c_signalling (consumer_pc l' i) + int (length (buffer l'))
       = int (empty_slots l) + c_signalling (consumer_pc l i) + int (length (buffer l)) \<and>
     int (length (buffer l')) + c_signalling (consumer_pc l' i)
       \<le> int (length (buffer l)) + c_signalling (consumer_pc l i) \<and>
     (c_entering (consumer_pc l' i) + int (length (buffer l))
        = c_entering (consumer_pc l i) + int (length (buffer l')) \<or>
      current_timestep l < total_timesteps l \<and> c_holding (consumer_pc l i) = 1 \<and>
      c_entering (consumer_pc l i) = 0 \<and> c_entering (consumer_pc l' i) = 1 \<and> buffer l' = buffer l)"
    by (rule conjunct2)
  have np: "num_producers l' = num_producers l" and nc: "num_consumers l' = num_consumers l"
    and cap: "buffer_capacity l' = buffer_capacity l" and tt: "total_timesteps l' = total_timesteps l"
    using cf by (simp_all add: same_config_def)
  have ca: "consumer_count c_entering l' = consumer_count c_entering l - c_entering (consumer_pc l i) + c_entering (consumer_pc l' i)"
    and cd: "consumer_count c_holding l' = consumer_count c_holding l - c_holding (consumer_pc l i) + c_holding (consumer_pc l' i)"
    and ce: "consumer_count c_signalling l' = consumer_count c_signalling l - c_signalling (consumer_pc l i) + c_signalling (consumer_pc l' i)"
    by (rule consumer_count_upd[OF nc upd sp])+
  from s have p_same: "producer_pc l' = producer_pc l" by (rule conjunct1)
  have ps: "producer_count p_entering l' = producer_count p_entering l" "producer_count p_holding l' = producer_count p_holding l" "producer_count p_signalling l' = producer_count p_signalling l"
    by (rule producer_count_same[OF np p_same])+
  have cdge: "c_holding (consumer_pc l i) \<le> consumer_count c_holding l" by (rule consumer_count_ge[OF sp]) (rule nn)
  have F0: "0 \<le> int (filled_slots l)" by simp
  have D1: "\<forall>j. consumer_pc l' j \<noteq> C_EmptyLock \<and> consumer_pc l' j \<noteq> C_EmptyRecord"
  proof
    fix j
    show "consumer_pc l' j \<noteq> C_EmptyLock \<and> consumer_pc l' j \<noteq> C_EmptyRecord"
    proof (cases "j = i")
      case True
      with s show ?thesis by simp
    next
      case False
      have "consumer_pc l' j = consumer_pc l j" by (subst upd) (use False in simp)
      with ok show ?thesis by (simp add: slots_ok_def)
    qed
  qed
  have D2: "\<forall>j. producer_pc l' j \<noteq> P_FullLock \<and> producer_pc l' j \<noteq> P_FullRecord"
    using p_same ok by (simp add: slots_ok_def)
  have W: "producer_waits (stats l') = 0 \<and> consumer_waits (stats l') = 0"
    using s ok by (simp add: slots_ok_def)
  have mp: "main_pc l' = main_pc l" using s by simp
  have A': "int (length (buffer l')) + producer_count p_entering l' + consumer_count c_signalling l' \<le> buffer_capacity l'"
    using A s ce ps cap by simp
  have A2': "consumer_count c_entering l' \<le> int (length (buffer l'))"
  proof -
    from s have "c_entering (consumer_pc l' i) + int (length (buffer l))
        = c_entering (consumer_pc l i) + int (length (buffer l')) \<or>
      current_timestep l < total_timesteps l \<and> c_holding (consumer_pc l i) = 1 \<and>
      c_entering (consumer_pc l i) = 0 \<and> c_entering (consumer_pc l' i) = 1 \<and> buffer l' = buffer l"
      by simp
    then show ?thesis
    proof
      assume "c_entering (consumer_pc l' i) + int (length (buffer l))
        = c_entering (consumer_pc l i) + int (length (buffer l'))"
      with A2 ca show ?thesis by linarith
    next
      assume h: "current_timestep l < total_timesteps l \<and> c_holding (consumer_pc l i) = 1 \<and>
        c_entering (consumer_pc l i) = 0 \<and> c_entering (consumer_pc l' i) = 1 \<and> buffer l' = buffer l"
      with P have "polling (main_pc l)" by auto
      with B2 have "int (filled_slots l) + consumer_count c_entering l + consumer_count c_holding l + producer_count p_signalling l
          \<le> int (length (buffer l))" by simp
      with h cdge F0 pf0 ca show ?thesis by simp
    qed
  qed
  have B': "polling (main_pc l') \<longrightarrow>
        int (empty_slots l') + producer_count p_entering l' + producer_count p_holding l' + int (length (buffer l')) + consumer_count c_signalling l'
          \<le> buffer_capacity l'"
    using B s ce ps cap mp by (simp add: algebra_simps) linarith
  have B2': "polling (main_pc l') \<longrightarrow>
        int (filled_slots l') + consumer_count c_entering l' + consumer_count c_holding l' + producer_count p_signalling l' \<le> int (length (buffer l'))"
    using B2 s ca cd ps mp by (simp add: algebra_simps) linarith
  have P': "\<not> polling (main_pc l') \<longrightarrow> total_timesteps l' \<le> current_timestep l'"
    using P s tt mp by auto
  show ?thesis
    unfolding slots_ok_def using D1 D2 W A' A2' B' B2' P' by blast
qed

lemma slots_ok_main:
  assumes ok: "slots_ok l" and st: "main_step l = Some l'" and cf: "same_config l l'"
  shows "slots_ok l'"
proof -
  note s = main_step_slots[OF st]
  have np: "num_producers l' = num_producers l" and nc: "num_consumers l' = num_consumers l"
    and cap: "buffer_capacity l' = buffer_capacity l" and tt: "total_timesteps l' = total_timesteps l"
    using cf by (simp_all add: same_config_def)
  from s have p_same: "producer_pc l' = producer_pc l" and c_same: "consumer_pc l' = consumer_pc l"
    and b_same: "buffer l' = buffer l" and st_same: "stats l' = stats l"
    and cur: "current_timestep l' = current_timestep l"
    by simp_all
  have ps: "producer_count p_entering l' = producer_count p_entering l" "producer_count p_holding l' = producer_count p_holding l" "producer_count p_signalling l' = producer_count p_signalling l"
    by (rule producer_count_same[OF np p_same])+
  have cs: "consumer_count c_entering l' = consumer_count c_entering l" "consumer_count c_holding l' = consumer_count c_holding l" "consumer_count c_signalling l' = consumer_count c_signalling l"
    by (rule consumer_count_same[OF nc c_same])+
  have D: "(\<forall>i. producer_pc l' i \<noteq> P_FullLock \<and> producer_pc l' i \<noteq> P_FullRecord) \<and>
     (\<forall>i. consumer_pc l' i \<noteq> C_EmptyLock \<and> consumer_pc l' i \<noteq> C_EmptyRecord) \<and>
     producer_waits (stats l') = 0 \<and> consumer_waits (stats l') = 0"
    using ok unfolding slots_ok_def p_same c_same st_same by blast
  have A': "int (length (buffer l')) + producer_count p_entering l' + consumer_count c_signalling l' \<le> buffer_capacity l'"
    and A2': "consumer_count c_entering l' \<le> int (length (buffer l'))"
    using ok unfolding slots_ok_def ps cs b_same cap by blast+
  have B': "polling (main_pc l') \<longrightarrow>
        int (empty_slots l') + producer_count p_entering l' + producer_count p_holding l' + int (length (buffer l')) + consumer_count c_signalling l'
          \<le> buffer_capacity l'"
  proof
    assume "polling (main_pc l')"
    with s have "polling (main_pc l)" "empty_slots l' = empty_slots l" by simp_all
    with ok show "int (empty_slots l') + producer_count p_entering l' + producer_count p_holding l' + int (length (buffer l'))
        + consumer_count c_signalling l' \<le> buffer_capacity l'"
      unfolding slots_ok_def ps cs b_same cap by simp
  qed
  have B2': "polling (main_pc l') \<longrightarrow>
        int (filled_slots l') + consumer_count c_entering l' + consumer_count c_holding l' + producer_count p_signalling l' \<le> int (length (buffer l'))"
  proof
    assume "polling (main_pc l')"
    with s have "polling (main_pc l)" "filled_slots l' = filled_slots l" by simp_all
    with ok show "int (filled_slots l') + consumer_count c_entering l' + consumer_count c_holding l' + producer_count p_signalling l'
        \<le> int (length (buffer l'))"
      unfolding slots_ok_def ps cs b_same by simp
  qed
  have P': "\<not> polling (main_pc l') \<longrightarrow> total_timesteps l' \<le> current_timestep l'"
  proof
    assume n: "\<not> polling (main_pc l')"
    show "total_timesteps l' \<le> current_timestep l'"
    proof (cases "polling (main_pc l)")
      case True
      with s n have "total_timesteps l \<le> current_timestep l" by simp
      then show ?thesis by (simp add: tt cur)
    next
      case False
      with ok have "total_timesteps l \<le> current_timestep l" by (simp add: slots_ok_def)
      then show ?thesis by (simp add: tt cur)
    qed
  qed
  show ?thesis
    unfolding slots_ok_def using D A' A2' B' B2' P' by blast
qed

lemma slots_ok_step:
  assumes "slots_ok l" "step l t = Some l'"
  shows "slots_ok l'"
proof (cases t)
  case (Producer i)
  with assms(2) have "int i < num_producers l" "producer_step i l = Some l'"
    by (simp_all add: step_def split: if_splits)
  then show ?thesis using slots_ok_producer[OF assms(1) _ _ step_config[OF assms(2)]] by blast
next
  case (Consumer i)
  with assms(2) have "int i < num_consumers l" "consumer_step i l = Some l'"
    by (simp_all add: step_def split: if_splits)
  then show ?thesis using slots_ok_consumer[OF assms(1) _ _ step_config[OF assms(2)]] by blast
next
  case Main
  with assms(2) have "main_step l = Some l'" by (simp add: step_def)
  then show ?thesis by (rule slots_ok_main[OF assms(1) _ step_config[OF assms(2)]])
qed

lemma slots_ok_new_line:
  assumes "0 \<le> cap"
  shows "slots_ok (new_line cap np nc tt)"
  using assms by (simp add: slots_ok_def new_line_def producer_count_def consumer_count_def)

lemma reachable_slots_ok:
  assumes "reachable (new_line cap np nc tt) l" "0 \<le> cap"
  shows "slots_ok l"
  using assms(1)
proof induction
  case reach_init
  show ?case by (rule slots_ok_new_line[OF assms(2)])
next
  case (reach_step l t l')
  then show ?case by (blast intro: slots_ok_step)
qed

lemma slots_ok_room:
  assumes "slots_ok l" "int i < num_producers l" "producer_pc l i = P_Test"
  shows "int (length (buffer l)) < buffer_capacity l"
proof -
  have A: "int (length (buffer l)) + producer_count p_entering l + consumer_count c_signalling l \<le> buffer_capacity l"
    using assms(1) by (simp add: slots_ok_def)
  have "0 \<le> consumer_count c_signalling l" by (rule consumer_count_nonneg) (rule weights_nonneg)
  moreover have "1 \<le> producer_count p_entering l"
    using producer_count_ge[OF assms(2), of p_entering] weights_nonneg assms(3) by simp
  ultimately show ?thesis using A by linarith
qed

lemma slots_ok_nonempty:
  assumes "slots_ok l" "int i < num_consumers l" "consumer_pc l i = C_Test"
  shows "buffer l \<noteq> []"
proof -
  have A2: "consumer_count c_entering l \<le> int (length (buffer l))"
    using assms(1) by (simp add: slots_ok_def)
  have "1 \<le> consumer_count c_entering l"
    using consumer_count_ge[OF assms(2), of c_entering] weights_nonneg assms(3) by simp
  with A2 show ?thesis by auto
qed

text \<open>The way of a producer to line 152, and of a consumer to line 187, step by step.\<close>

lemma producer_step_path:
  assumes "producer_step i l = Some l'"
    and "producer_pc l i \<noteq> P_FullLock" "producer_pc l i \<noteq> P_FullRecord"
    and "producer_pc l i = P_Test \<longrightarrow> int (length (buffer l)) < buffer_capacity l"
  shows "(producer_pc l i = P_Test \<longrightarrow> producer_pc l' i = P_IncLock) \<and>
     (filled_slots l' \<noteq> filled_slots l \<longrightarrow>
        producer_pc l i = P_Signal \<and> filled_slots l' = filled_slots l + 1) \<and>
     (producer_pc l' i = P_Signal \<longrightarrow> producer_pc l i = P_Unlock) \<and>
     (producer_pc l' i = P_Unlock \<longrightarrow> (\<exists>ts. producer_pc l i = P_Record ts)) \<and>
     (\<forall>ts. producer_pc l' i = P_Record ts \<longrightarrow> producer_pc l i = P_StatsLock ts) \<and>
     (\<forall>ts. producer_pc l' i = P_StatsLock ts \<longrightarrow>
        producer_pc l i = P_Append ts \<and> buffer l' = buffer l @ [Piece i ts])"
  using assms(1)[symmetric] assms(2-)
  unfolding producer_step_def should_continue_step_def set_ppc_def
  by (cases "producer_pc l i") (simp_all split: if_splits sc_pc.splits)

lemma consumer_step_path:
  assumes "consumer_step i l = Some l'"
    and "consumer_pc l i \<noteq> C_EmptyLock" "consumer_pc l i \<noteq> C_EmptyRecord"
    and "consumer_pc l i = C_Test \<longrightarrow> buffer l \<noteq> []"
  shows "(consumer_pc l i = C_Test \<longrightarrow> consumer_pc l' i = C_Pop) \<and>
     (empty_slots l' \<noteq> empty_slots l \<longrightarrow>
        consumer_pc l i = C_Signal \<and> empty_slots l' = empty_slots l + 1) \<and>
     (consumer_pc l' i = C_Signal \<longrightarrow> consumer_pc l i = C_Unlock) \<and>
     (consumer_pc l' i = C_Unlock \<longrightarrow> (\<exists>u. consumer_pc l i = C_Record u)) \<and>
     (\<forall>u. consumer_pc l' i = C_Record u \<longrightarrow> consumer_pc l i = C_StatsLock u) \<and>
     (\<forall>u. consumer_pc l' i = C_StatsLock u \<longrightarrow>
        consumer_pc l i = C_Pop \<and> buffer l = u # buffer l')"
  using assms(1)[symmetric] assms(2-)
  unfolding consumer_step_def should_continue_step_def set_cpc_def
  by (cases "consumer_pc l i") (auto split: if_splits sc_pc.splits list.splits)

text \<open>
  C2. In every run the test of line 133 finds room and the test of line 175 finds a unit:
  no thread is ever on the branch of lines 146-149 or 181-184, and the two wait counters
  stay 0. A producer releases \<open>filled_slots\<close> only at line 152, by one, and reaches line
  152 only through lines 137, 140-141 and the end of the \<open>with\<close> block, that is, after
  it has appended its unit; a consumer releases \<open>empty_slots\<close> only at line 187, by one,
  and reaches it only after it has popped a unit. (The releases of lines 152 and 187 stand
  after the \<open>if\<close>/\<open>else\<close>; they would run on the defensive branches too, which no run
  enters.)
\<close>

theorem signal_only_when_accepted:
  assumes "ProductionLine_init cap np nc tt v = Inr l0" and "reachable l0 l"
  shows "(\<forall>i. producer_pc l i \<noteq> P_FullLock \<and> producer_pc l i \<noteq> P_FullRecord) \<and>
         (\<forall>j. consumer_pc l j \<noteq> C_EmptyLock \<and> consumer_pc l j \<noteq> C_EmptyRecord) \<and>
         producer_waits (stats l) = 0 \<and> consumer_waits (stats l) = 0 \<and>
         (\<forall>i l'. step l (Producer i) = Some l' \<longrightarrow>
            (producer_pc l i = P_Test \<longrightarrow>
               int (length (buffer l)) < buffer_capacity l \<and> producer_pc l' i = P_IncLock) \<and>
            (filled_slots l' \<noteq> filled_slots l \<longrightarrow>
               producer_pc l i = P_Signal \<and> filled_slots l' = filled_slots l + 1) \<and>
            (producer_pc l' i = P_Signal \<longrightarrow> producer_pc l i = P_Unlock) \<and>
            (producer_pc l' i = P_Unlock \<longrightarrow> (\<exists>ts. producer_pc l i = P_Record ts)) \<and>
            (\<forall>ts. producer_pc l' i = P_Record ts \<longrightarrow> producer_pc l i = P_StatsLock ts) \<and>
            (\<forall>ts. producer_pc l' i = P_StatsLock ts \<longrightarrow>
               producer_pc l i = P_Append ts \<and> buffer l' = buffer l @ [Piece i ts])) \<and>
         (\<forall>j l'. step l (Consumer j) = Some l' \<longrightarrow>
            (consumer_pc l j = C_Test \<longrightarrow> buffer l \<noteq> [] \<and> consumer_pc l' j = C_Pop) \<and>
            (empty_slots l' \<noteq> empty_slots l \<longrightarrow>
               consumer_pc l j = C_Signal \<and> empty_slots l' = empty_slots l + 1) \<and>
            (consumer_pc l' j = C_Signal \<longrightarrow> consumer_pc l j = C_Unlock) \<and>
            (consumer_pc l' j = C_Unlock \<longrightarrow> (\<exists>u. consumer_pc l j = C_Record u)) \<and>
            (\<forall>u. consumer_pc l' j = C_Record u \<longrightarrow> consumer_pc l j = C_StatsLock u) \<and>
            (\<forall>u. consumer_pc l' j = C_StatsLock u \<longrightarrow>
               consumer_pc l j = C_Pop \<and> buffer l = u # buffer l'))"
proof -
  from init_new_line[OF assms(1)] have l0: "l0 = new_line cap np nc tt" and cap: "0 \<le> cap"
    by simp_all
  note ok = reachable_slots_ok[OF assms(2)[unfolded l0] cap]
  have a: "\<forall>i. producer_pc l i \<noteq> P_FullLock \<and> producer_pc l i \<noteq> P_FullRecord"
    and b: "\<forall>j. consumer_pc l j \<noteq> C_EmptyLock \<and> consumer_pc l j \<noteq> C_EmptyRecord"
    and c: "producer_waits (stats l) = 0" and d: "consumer_waits (stats l) = 0"
    using ok by (simp_all add: slots_ok_def)
  have e: "\<forall>i l'. step l (Producer i) = Some l' \<longrightarrow>
            (producer_pc l i = P_Test \<longrightarrow>
               int (length (buffer l)) < buffer_capacity l \<and> producer_pc l' i = P_IncLock) \<and>
            (filled_slots l' \<noteq> filled_slots l \<longrightarrow>
               producer_pc l i = P_Signal \<and> filled_slots l' = filled_slots l + 1) \<and>
            (producer_pc l' i = P_Signal \<longrightarrow> producer_pc l i = P_Unlock) \<and>
            (producer_pc l' i = P_Unlock \<longrightarrow> (\<exists>ts. producer_pc l i = P_Record ts)) \<and>
            (\<forall>ts. producer_pc l' i = P_Record ts \<longrightarrow> producer_pc l i = P_StatsLock ts) \<and>
            (\<forall>ts. producer_pc l' i = P_StatsLock ts \<longrightarrow>
               producer_pc l i = P_Append ts \<and> buffer l' = buffer l @ [Piece i ts])"
  proof (intro allI impI)
    fix i l' assume "step l (Producer i) = Some l'"
    then have sp: "int i < num_producers l" and st: "producer_step i l = Some l'"
      by (simp_all add: step_def split: if_splits)
    have room: "producer_pc l i = P_Test \<longrightarrow> int (length (buffer l)) < buffer_capacity l"
      using slots_ok_room[OF ok sp] by blast
    from a have dead: "producer_pc l i \<noteq> P_FullLock" "producer_pc l i \<noteq> P_FullRecord"
      by simp_all
    from producer_step_path[OF st dead room] room
    show "(producer_pc l i = P_Test \<longrightarrow>
               int (length (buffer l)) < buffer_capacity l \<and> producer_pc l' i = P_IncLock) \<and>
            (filled_slots l' \<noteq> filled_slots l \<longrightarrow>
               producer_pc l i = P_Signal \<and> filled_slots l' = filled_slots l + 1) \<and>
            (producer_pc l' i = P_Signal \<longrightarrow> producer_pc l i = P_Unlock) \<and>
            (producer_pc l' i = P_Unlock \<longrightarrow> (\<exists>ts. producer_pc l i = P_Record ts)) \<and>
            (\<forall>ts. producer_pc l' i = P_Record ts \<longrightarrow> producer_pc l i = P_StatsLock ts) \<and>
            (\<forall>ts. producer_pc l' i = P_StatsLock ts \<longrightarrow>
               producer_pc l i = P_Append ts \<and> buffer l' = buffer l @ [Piece i ts])"
      by blast
  qed
  have f: "\<forall>j l'. step l (Consumer j) = Some l' \<longrightarrow>
            (consumer_pc l j = C_Test \<longrightarrow> buffer l \<noteq> [] \<and> consumer_pc l' j = C_Pop) \<and>
            (empty_slots l' \<noteq> empty_slots l \<longrightarrow>
               consumer_pc l j = C_Signal \<and> empty_slots l' = empty_slots l + 1) \<and>
            (consumer_pc l' j = C_Signal \<longrightarrow> consumer_pc l j = C_Unlock) \<and>
            (consumer_pc l' j = C_Unlock \<longrightarrow> (\<exists>u. consumer_pc l j = C_Record u)) \<and>
            (\<forall>u. consumer_pc l' j = C_Record u \<longrightarrow> consumer_pc l j = C_StatsLock u) \<and>
            (\<forall>u. consumer_pc l' j = C_StatsLock u \<longrightarrow>
               consumer_pc l j = C_Pop \<and> buffer l = u # buffer l')"
  proof (intro allI impI)
    fix j l' assume "step l (Consumer j) = Some l'"
    then have sp: "int j < num_consumers l" and st: "consumer_step j l = Some l'"
      by (simp_all add: step_def split: if_splits)
    have nonempty: "consumer_pc l j = C_Test \<longrightarrow> buffer l \<noteq> []"
      using slots_ok_nonempty[OF ok sp] by blast
    from b have dead: "consumer_pc l j \<noteq> C_EmptyLock" "consumer_pc l j \<noteq> C_EmptyRecord"
      by simp_all
    from consumer_step_path[OF st dead nonempty] nonempty
    show "(consumer_pc l j = C_Test \<longrightarrow> buffer l \<noteq> [] \<and> consumer_pc l' j = C_Pop) \<and>
            (empty_slots l' \<noteq> empty_slots l \<longrightarrow>
               consumer_pc l j = C_Signal \<and> empty_slots l' = empty_slots l + 1) \<and>
            (consumer_pc l' j = C_Signal \<longrightarrow> consumer_pc l j = C_Unlock) \<and>
            (consumer_pc l' j = C_Unlock \<longrightarrow> (\<exists>u. consumer_pc l j = C_Record u)) \<and>
            (\<forall>u. consumer_pc l' j = C_Record u \<longrightarrow> consumer_pc l j = C_StatsLock u) \<and>
            (\<forall>u. consumer_pc l' j = C_StatsLock u \<longrightarrow>
               consumer_pc l j = C_Pop \<and> buffer l = u # buffer l')"
      by blast
  qed
  show ?thesis by (intro conjI; fact)
qed

theorem signal_only_when_accepted_witness:
  "\<exists>l l'. ProductionLine_init 1 1 1 2 False = Inr (new_line 1 1 1 2) \<and>
     run (new_line 1 1 1 2) (replicate 15 (Producer 0)) = Some l \<and>
     step l (Producer 0) = Some l' \<and>
     buffer l = [Piece 0 1] \<and> total_produced (stats l) = 1 \<and>
     filled_slots l = 0 \<and> filled_slots l' = 1 \<and>
     producer_pc l 0 = P_Signal \<and> producer_waits (stats l) = 0"
proof -
  have i: "ProductionLine_init 1 1 1 2 False = Inr (new_line 1 1 1 2)"
    by (simp add: ProductionLine_init_def)
  have "\<exists>l l'. run (new_line 1 1 1 2) (replicate 15 (Producer 0)) = Some l \<and>
     step l (Producer 0) = Some l' \<and>
     buffer l = [Piece 0 1] \<and> total_produced (stats l) = 1 \<and>
     filled_slots l = 0 \<and> filled_slots l' = 1"
    by (simp add: run_defs)
  then obtain l l' where r: "run (new_line 1 1 1 2) (replicate 15 (Producer 0)) = Some l"
    and s: "step l (Producer 0) = Some l'"
    and v: "buffer l = [Piece 0 1]" "total_produced (stats l) = 1"
      "filled_slots l = 0" "filled_slots l' = 1"
    by blast
  have "reachable (new_line 1 1 1 2) l"
    by (rule run_reachable[OF reachable.reach_init r])
  note th = signal_only_when_accepted[OF i this]
  from v have ne: "filled_slots l' \<noteq> filled_slots l" by simp
  from th s ne have 1: "producer_pc l 0 = P_Signal" by blast
  from th have 2: "producer_waits (stats l) = 0" by blast
  from i r s v 1 2 show ?thesis by blast
qed

subsection \<open>Conservation\<close>

lemma cons_ok_critical:
  assumes "step l t = Some l'" "holds_mutex (pc_of l t)" "holds_mutex (pc_of l' t)"
    "cons_ok (pc_of l t) l"
  shows "cons_ok (pc_of l' t) l'"
proof (cases t)
  case (Producer i)
  with assms(1)[symmetric] assms(2-) show ?thesis
    unfolding step_defs pc_of_def cons_ok_def
    by (cases "producer_pc l i") (simp_all split: if_splits sc_pc.splits)
next
  case (Consumer i)
  with assms(1)[symmetric] assms(2-) show ?thesis
    unfolding step_defs pc_of_def cons_ok_def
    by (cases "consumer_pc l i") (auto split: if_splits sc_pc.splits list.splits)
next
  case Main
  with assms(2) show ?thesis by (simp add: pc_of_def)
qed

lemma cons_ok_idle: "idle c \<Longrightarrow> idle c' \<Longrightarrow> cons_ok c l \<Longrightarrow> cons_ok c' l"
  by (cases c rule: idle.cases; cases c' rule: idle.cases) (simp_all add: cons_ok_def)

lemma cons_ok_data: "same_data l l' \<Longrightarrow> cons_ok c l \<Longrightarrow> cons_ok c l'"
  by (simp add: cons_ok_def same_data_def)

lemma cons_ok_reachable:
  assumes "reachable (new_line cap np nc tt) l"
  shows "cons_ok (critical_pc l) l"
proof -
  from assms(1) obtain ps cs where ex: "execution (new_line cap np nc tt) l ps cs"
    by (auto dest: reachable_execution)
  show ?thesis
  proof (rule critical_induct[OF ex, where Q = "\<lambda>c l ps cs. cons_ok c l"])
    show "cons_ok (WP W_Done) (new_line cap np nc tt)"
      by (simp add: cons_ok_def new_line_def)
  qed (auto intro: cons_ok_critical cons_ok_idle cons_ok_data)
qed

lemma step_produced:
  assumes "step l t = Some l'" "total_produced (stats l') \<noteq> total_produced (stats l)"
  shows "(\<exists>i ts. t = Producer i \<and> producer_pc l i = P_Record ts) \<and>
         total_produced (stats l') = total_produced (stats l) + 1"
proof (cases t)
  case (Producer i)
  with assms(1)[symmetric] assms(2) show ?thesis
    unfolding step_defs
    by (cases "producer_pc l i") (simp_all split: if_splits sc_pc.splits)
next
  case (Consumer i)
  with assms(1)[symmetric] assms(2) show ?thesis
    unfolding step_defs
    by (cases "consumer_pc l i") (simp_all split: if_splits sc_pc.splits list.splits)
next
  case Main
  with assms(1)[symmetric] assms(2) show ?thesis
    unfolding step_defs
    by (cases "main_pc l") (simp_all split: if_splits)
qed

lemma step_consumed:
  assumes "step l t = Some l'" "total_consumed (stats l') \<noteq> total_consumed (stats l)"
  shows "(\<exists>i u. t = Consumer i \<and> consumer_pc l i = C_Record u) \<and>
         total_consumed (stats l') = total_consumed (stats l) + 1"
proof (cases t)
  case (Producer i)
  with assms(1)[symmetric] assms(2) show ?thesis
    unfolding step_defs
    by (cases "producer_pc l i") (simp_all split: if_splits sc_pc.splits)
next
  case (Consumer i)
  with assms(1)[symmetric] assms(2) show ?thesis
    unfolding step_defs
    by (cases "consumer_pc l i") (simp_all split: if_splits sc_pc.splits list.splits)
next
  case Main
  with assms(1)[symmetric] assms(2) show ?thesis
    unfolding step_defs
    by (cases "main_pc l") (simp_all split: if_splits)
qed

lemma pending_bounds: "- 1 \<le> pending c \<and> pending c \<le> 1"
  by (cases c rule: pending.cases) simp_all

text \<open>
  C1, as stated, fails: \<open>wait_completion\<close> joins with a timeout and returns whether or not
  the workers have returned. With capacity 1, one producer, one consumer and one timestep,
  the producer appends its unit and is not scheduled again before the join of line 238
  times out: \<open>wait_completion\<close> returns with \<open>total_produced = 0\<close>,
  \<open>total_consumed = 0\<close> and one unit in the buffer.
\<close>

theorem conservation_counterexample:
  "ProductionLine_init 1 1 1 1 False = Inr (new_line 1 1 1 1) \<and>
   map_option tally (run (new_line 1 1 1 1) timeout_schedule) = Some (True, 0, 0, 1)"
  by (simp add: ProductionLine_init_def tally_def returned_def timeout_schedule_def run_defs)

text \<open>
  C1, amended. When \<open>wait_completion\<close> has returned and every worker has returned, and
  whenever no thread is inside the buffer's critical section,
  \<open>total_produced = total_consumed + len(buffer)\<close>; in every state of a run the two sides
  differ by at most one. \<open>total_produced\<close> changes only by one, at line 141, in the
  critical section of the producer that has appended; \<open>total_consumed\<close> only by one, at
  line 180, in the critical section of the consumer that has popped.
\<close>

theorem conservation:
  assumes "ProductionLine_init cap np nc tt v = Inr l0" and "reachable l0 l"
  shows "(returned l \<and> all_joined l \<longrightarrow>
            total_produced (stats l) = total_consumed (stats l) + int (length (buffer l))) \<and>
         (mutex l = None \<longrightarrow>
            total_produced (stats l) = total_consumed (stats l) + int (length (buffer l))) \<and>
         \<bar>total_produced (stats l) - (total_consumed (stats l) + int (length (buffer l)))\<bar> \<le> 1 \<and>
         (\<forall>t l'. step l t = Some l' \<longrightarrow> total_produced (stats l') \<noteq> total_produced (stats l) \<longrightarrow>
            mutex l = Some t \<and> (\<exists>i ts. t = Producer i \<and> producer_pc l i = P_Record ts) \<and>
            total_produced (stats l') = total_produced (stats l) + 1) \<and>
         (\<forall>t l'. step l t = Some l' \<longrightarrow> total_consumed (stats l') \<noteq> total_consumed (stats l) \<longrightarrow>
            mutex l = Some t \<and> (\<exists>i u. t = Consumer i \<and> consumer_pc l i = C_Record u) \<and>
            total_consumed (stats l') = total_consumed (stats l) + 1)"
proof -
  from init_new_line[OF assms(1)] have l0: "l0 = new_line cap np nc tt" by simp
  note r = assms(2)[unfolded l0]
  note li = reachable_lock_inv[OF r]
  have free: "mutex l = None \<longrightarrow>
      total_produced (stats l) = total_consumed (stats l) + int (length (buffer l))"
    using cons_ok_reachable[OF r] by (auto simp: critical_pc_def cons_ok_def)
  have fin: "returned l \<and> all_joined l \<longrightarrow>
      total_produced (stats l) = total_consumed (stats l) + int (length (buffer l))"
    using joined_mutex_free[OF r] free by simp
  have near: "\<bar>total_produced (stats l) - (total_consumed (stats l) + int (length (buffer l)))\<bar> \<le> 1"
    using cons_ok_reachable[OF r] pending_bounds[of "critical_pc l"]
    unfolding cons_ok_def by linarith
  have p: "\<forall>t l'. step l t = Some l' \<longrightarrow> total_produced (stats l') \<noteq> total_produced (stats l) \<longrightarrow>
            mutex l = Some t \<and> (\<exists>i ts. t = Producer i \<and> producer_pc l i = P_Record ts) \<and>
            total_produced (stats l') = total_produced (stats l) + 1"
  proof (intro allI impI)
    fix t l'
    assume that: "step l t = Some l'" "total_produced (stats l') \<noteq> total_produced (stats l)"
    from step_produced[OF that] obtain i ts where
      t: "t = Producer i" "producer_pc l i = P_Record ts"
      and e: "total_produced (stats l') = total_produced (stats l) + 1" by blast
    from t have "holds_mutex (pc_of l t)" by (simp add: pc_of_def)
    with li have "mutex l = Some t" by (simp add: lock_inv_def)
    with t e show "mutex l = Some t \<and> (\<exists>i ts. t = Producer i \<and> producer_pc l i = P_Record ts) \<and>
            total_produced (stats l') = total_produced (stats l) + 1" by simp
  qed
  have c: "\<forall>t l'. step l t = Some l' \<longrightarrow> total_consumed (stats l') \<noteq> total_consumed (stats l) \<longrightarrow>
            mutex l = Some t \<and> (\<exists>i u. t = Consumer i \<and> consumer_pc l i = C_Record u) \<and>
            total_consumed (stats l') = total_consumed (stats l) + 1"
  proof (intro allI impI)
    fix t l'
    assume that: "step l t = Some l'" "total_consumed (stats l') \<noteq> total_consumed (stats l)"
    from step_consumed[OF that] obtain i u where
      t: "t = Consumer i" "consumer_pc l i = C_Record u"
      and e: "total_consumed (stats l') = total_consumed (stats l) + 1" by blast
    from t have "holds_mutex (pc_of l t)" by (simp add: pc_of_def)
    with li have "mutex l = Some t" by (simp add: lock_inv_def)
    with t e show "mutex l = Some t \<and> (\<exists>i u. t = Consumer i \<and> consumer_pc l i = C_Record u) \<and>
            total_consumed (stats l') = total_consumed (stats l) + 1" by simp
  qed
  show ?thesis by (intro conjI; fact)
qed

theorem conservation_witness:
  "\<exists>l. ProductionLine_init 1 1 1 2 False = Inr (new_line 1 1 1 2) \<and>
       run (new_line 1 1 1 2) handoff_schedule = Some l \<and> returned l \<and> all_joined l \<and>
       total_produced (stats l) = 2 \<and> total_consumed (stats l) = 1 \<and> length (buffer l) = 1 \<and>
       total_produced (stats l) = total_consumed (stats l) + int (length (buffer l))"
proof -
  have i: "ProductionLine_init 1 1 1 2 False = Inr (new_line 1 1 1 2)"
    by (simp add: ProductionLine_init_def)
  have "\<exists>l. run (new_line 1 1 1 2) handoff_schedule = Some l \<and> returned l \<and> all_joined l \<and>
       total_produced (stats l) = 2 \<and> total_consumed (stats l) = 1 \<and> length (buffer l) = 1"
    by (simp add: handoff_schedule_def returned_def run_defs)
  then obtain l where r: "run (new_line 1 1 1 2) handoff_schedule = Some l"
    and c: "returned l" "all_joined l"
    and v: "total_produced (stats l) = 2" "total_consumed (stats l) = 1" "length (buffer l) = 1"
    by blast
  have "reachable (new_line 1 1 1 2) l"
    by (rule run_reachable[OF reachable.reach_init r])
  from conservation[OF i this] c
  have "total_produced (stats l) = total_consumed (stats l) + int (length (buffer l))" by blast
  with i r c v show ?thesis by blast
qed

subsection \<open>Order\<close>





lemma upto_snoc: "1 \<le> c \<Longrightarrow> [1 .. c - 1] @ [c] = [1 .. (c::int)]"
  by (simp add: upto_rec2)

lemma log_ok_critical:
  assumes "step l t = Some l'" "holds_mutex (pc_of l t)" "holds_mutex (pc_of l' t)"
    "log_ok (pc_of l t) l ps"
  shows "log_ok (pc_of l' t) l' (ps @ grown l l')"
proof (cases t)
  case (Producer i)
  with assms(1)[symmetric] assms(2-) show ?thesis
    unfolding step_defs pc_of_def log_ok_def grown_def
    by (cases "producer_pc l i") (simp_all add: upto_snoc split: if_splits sc_pc.splits)
next
  case (Consumer i)
  with assms(1)[symmetric] assms(2-) show ?thesis
    unfolding step_defs pc_of_def log_ok_def grown_def
    by (cases "consumer_pc l i") (auto split: if_splits sc_pc.splits list.splits)
next
  case Main
  with assms(2) show ?thesis by (simp add: pc_of_def)
qed

lemma log_ok_idle: "idle c \<Longrightarrow> idle c' \<Longrightarrow> log_ok c l ps \<Longrightarrow> log_ok c' l ps"
  by (cases c rule: idle.cases; cases c' rule: idle.cases) (simp_all add: log_ok_def)

lemma log_ok_data: "same_data l l' \<Longrightarrow> log_ok c l ps \<Longrightarrow> log_ok c l' ps"
  by (simp add: log_ok_def same_data_def)

lemma log_ok_execution:
  assumes ex: "execution (new_line cap np nc tt) l ps cs"
  shows "log_ok (critical_pc l) l ps"
proof (rule critical_induct[OF ex, where Q = "\<lambda>c l ps cs. log_ok c l ps"])
  show "log_ok (WP W_Done) (new_line cap np nc tt) []"
    by (simp add: log_ok_def new_line_def)
qed (auto intro: log_ok_critical log_ok_idle log_ok_data)

lemma step_timestep:
  assumes "step l t = Some l'" "current_timestep l' \<noteq> current_timestep l"
  shows "\<exists>i. t = Producer i \<and> producer_pc l i = P_Inc \<and>
           current_timestep l' = current_timestep l + 1 \<and>
           producer_pc l' i = P_Append (current_timestep l + 1)"
proof (cases t)
  case (Producer i)
  with assms(1)[symmetric] assms(2) show ?thesis
    unfolding step_defs
    by (cases "producer_pc l i") (simp_all split: if_splits sc_pc.splits)
next
  case (Consumer i)
  with assms(1)[symmetric] assms(2) show ?thesis
    unfolding step_defs
    by (cases "consumer_pc l i") (simp_all split: if_splits sc_pc.splits list.splits)
next
  case Main
  with assms(1)[symmetric] assms(2) show ?thesis
    unfolding step_defs
    by (cases "main_pc l") (simp_all split: if_splits)
qed



section \<open>Timesteps and snapshots\<close>

text \<open>
  C10. The timestep changes only at line 109, by one, on the branch where the buffer has
  room, and the unit is tagged with the value after the increment. Whenever no thread is
  inside the critical section, the units produced so far carry exactly the timesteps
  \<open>1 .. total_produced\<close>, in order and without repetition; the first unit carries 1.
\<close>

theorem timestep_tags:
  assumes "ProductionLine_init cap np nc tt v = Inr l0" and "execution l0 l ps cs"
  shows "(mutex l = None \<longrightarrow>
            map tstep ps = [1 .. total_produced (stats l)] \<and>
            set (map tstep ps) = {1 .. total_produced (stats l)} \<and>
            distinct (map tstep ps) \<and>
            total_produced (stats l) = current_timestep l) \<and>
         (ps \<noteq> [] \<longrightarrow> tstep (hd ps) = 1) \<and>
         (\<forall>t l'. step l t = Some l' \<longrightarrow> current_timestep l' \<noteq> current_timestep l \<longrightarrow>
            (\<exists>i. t = Producer i \<and> producer_pc l i = P_Inc \<and>
               int (length (buffer l)) < buffer_capacity l \<and>
               current_timestep l' = current_timestep l + 1 \<and>
               producer_pc l' i = P_Append (current_timestep l + 1)))"
proof -
  from init_new_line[OF assms(1)] have l0: "l0 = new_line cap np nc tt" and cap: "0 \<le> cap"
    by simp_all
  note ex = assms(2)[unfolded l0]
  note r = execution_reachable[OF ex]
  note li = reachable_lock_inv[OF r]
  note lg = log_ok_execution[OF ex]
  have a: "mutex l = None \<longrightarrow>
            map tstep ps = [1 .. total_produced (stats l)] \<and>
            set (map tstep ps) = {1 .. total_produced (stats l)} \<and>
            distinct (map tstep ps) \<and>
            total_produced (stats l) = current_timestep l"
  proof
    assume "mutex l = None"
    then have c: "critical_pc l = WP W_Done" by (rule critical_pc_free)
    from lg have m: "map tstep ps = [1 .. current_timestep l]"
      and n: "int (length ps) = total_produced (stats l)" and z: "0 \<le> current_timestep l"
      unfolding c by (simp_all add: log_ok_def)
    from m have "length ps = length [1 .. current_timestep l]"
      by (metis length_map)
    with n z have e: "total_produced (stats l) = current_timestep l" by simp
    have "set (map tstep ps) = {1 .. total_produced (stats l)}"
      unfolding m e by simp
    moreover have "distinct (map tstep ps)" unfolding m by simp
    ultimately show "map tstep ps = [1 .. total_produced (stats l)] \<and>
            set (map tstep ps) = {1 .. total_produced (stats l)} \<and>
            distinct (map tstep ps) \<and>
            total_produced (stats l) = current_timestep l"
      using m e by simp
  qed
  have b: "ps \<noteq> [] \<longrightarrow> tstep (hd ps) = 1"
  proof
    assume ne: "ps \<noteq> []"
    from lg have m: "map tstep ps = [1 .. current_timestep l - unappended (critical_pc l)]"
      by (simp add: log_ok_def)
    with ne have "1 \<le> current_timestep l - unappended (critical_pc l)"
      by (cases "1 \<le> current_timestep l - unappended (critical_pc l)") auto
    then have "hd [1 .. current_timestep l - unappended (critical_pc l)] = 1"
      by (simp add: upto_rec1)
    with m ne show "tstep (hd ps) = 1" by (metis hd_map)
  qed
  have c: "\<forall>t l'. step l t = Some l' \<longrightarrow> current_timestep l' \<noteq> current_timestep l \<longrightarrow>
            (\<exists>i. t = Producer i \<and> producer_pc l i = P_Inc \<and>
               int (length (buffer l)) < buffer_capacity l \<and>
               current_timestep l' = current_timestep l + 1 \<and>
               producer_pc l' i = P_Append (current_timestep l + 1))"
  proof (intro allI impI)
    fix t l'
    assume "step l t = Some l'" "current_timestep l' \<noteq> current_timestep l"
    from step_timestep[OF this] obtain i where
      t: "t = Producer i" "producer_pc l i = P_Inc"
      and e: "current_timestep l' = current_timestep l + 1"
        "producer_pc l' i = P_Append (current_timestep l + 1)" by blast
    from t have "critical_pc l = PP P_Inc"
      using critical_pc_holder[OF li, of t] by (simp add: pc_of_def)
    with cap_ok_reachable[OF r cap] have "int (length (buffer l)) < buffer_capacity l"
      by (simp add: cap_ok_def)
    with t e show "\<exists>i. t = Producer i \<and> producer_pc l i = P_Inc \<and>
               int (length (buffer l)) < buffer_capacity l \<and>
               current_timestep l' = current_timestep l + 1 \<and>
               producer_pc l' i = P_Append (current_timestep l + 1)" by simp
  qed
  show ?thesis by (intro conjI; fact)
qed

theorem timestep_tags_witness:
  "\<exists>l ps cs. ProductionLine_init 1 1 1 2 False = Inr (new_line 1 1 1 2) \<and>
     run_log (new_line 1 1 1 2) [] [] handoff_schedule = Some (l, ps, cs) \<and>
     mutex l = None \<and> total_produced (stats l) = 2 \<and> ps = [Piece 0 1, Piece 0 2] \<and>
     map tstep ps = [1 .. total_produced (stats l)] \<and> tstep (hd ps) = 1"
proof -
  have i: "ProductionLine_init 1 1 1 2 False = Inr (new_line 1 1 1 2)"
    by (simp add: ProductionLine_init_def)
  have "\<exists>l ps cs. run_log (new_line 1 1 1 2) [] [] handoff_schedule = Some (l, ps, cs) \<and>
     mutex l = None \<and> total_produced (stats l) = 2 \<and> ps = [Piece 0 1, Piece 0 2]"
    by (simp add: handoff_schedule_def run_defs grown_def shrunk_def)
  then obtain l ps cs
    where r: "run_log (new_line 1 1 1 2) [] [] handoff_schedule = Some (l, ps, cs)"
    and v: "mutex l = None" "total_produced (stats l) = 2" "ps = [Piece 0 1, Piece 0 2]"
    by blast
  have "execution (new_line 1 1 1 2) l ps cs"
    by (rule run_log_execution[OF execution.exec_init r])
  from timestep_tags[OF i this] v(1) v(3)
  have "map tstep ps = [1 .. total_produced (stats l)]" "tstep (hd ps) = 1" by auto
  with i r v show ?thesis by blast
qed

subsection \<open>How far the timestep goes\<close>

text \<open>The timestep never decreases, and \<open>wait_completion\<close> leaves its loop only at or
  beyond \<open>total_timesteps\<close>.\<close>

lemma step_polling:
  assumes "step l t = Some l'"
  shows "current_timestep l \<le> current_timestep l' \<and>
         current_timestep l' \<le> current_timestep l + 1 \<and>
         (polling (main_pc l) \<longrightarrow> \<not> polling (main_pc l') \<longrightarrow>
            total_timesteps l \<le> current_timestep l)"
proof (cases t)
  case (Producer i)
  with assms[symmetric] show ?thesis
    unfolding step_defs
    by (cases "producer_pc l i") (simp_all split: if_splits sc_pc.splits)
next
  case (Consumer i)
  with assms[symmetric] show ?thesis
    unfolding step_defs
    by (cases "consumer_pc l i") (simp_all split: if_splits sc_pc.splits list.splits)
next
  case Main
  with assms[symmetric] show ?thesis
    unfolding step_defs
    by (cases "main_pc l") (simp_all split: if_splits)
qed

lemma timestep_monotone:
  assumes "reachable l0 l"
  shows "current_timestep l0 \<le> current_timestep l"
  using assms
proof (induction rule: reachable.induct)
  case reach_init
  show ?case by simp
next
  case (reach_step l t l')
  with step_polling[OF reach_step.hyps(2)] show ?case by simp
qed

lemma timestep_reaches_total:
  assumes "reachable (new_line cap np nc tt) l" "\<not> polling (main_pc l)"
  shows "tt \<le> current_timestep l"
proof -
  have "total_timesteps l = tt \<and> (\<not> polling (main_pc l) \<longrightarrow> tt \<le> current_timestep l)"
    using assms(1)
  proof (induction rule: reachable.induct)
    case reach_init
    show ?case by (simp add: new_line_def)
  next
    case (reach_step l t l')
    from step_config[OF reach_step.hyps(2)] step_polling[OF reach_step.hyps(2)] reach_step.IH
    show ?case by (auto simp: same_config_def)
  qed
  with assms(2) show ?thesis by simp
qed

text \<open>
  The check of line 127 and the increment of line 109 are separate actions. Once the
  timestep has reached \<open>total_timesteps\<close> no producer passes the check any more, but every
  producer that has passed it before still increments: the timestep ends at most
  \<open>num_producers - 1\<close> beyond \<open>total_timesteps\<close>.
\<close>

lemma committed_set_bound: "finite (committed_set l) \<and> int (card (committed_set l)) \<le> max 0 (num_producers l)"
proof -
  have sub: "committed_set l \<subseteq> {..< nat (num_producers l)}"
    by (auto simp: committed_set_def)
  then have f: "finite (committed_set l)" by (rule finite_subset) simp
  from sub have "card (committed_set l) \<le> card {..< nat (num_producers l)}"
    by (intro card_mono) simp_all
  then show ?thesis using f by simp
qed

lemma committed_set_upd:
  assumes "num_producers l' = num_producers l" "producer_pc l' = (producer_pc l)(i := c)"
    "int i < num_producers l"
  shows "committed_set l' =
     (if committed c then insert i (committed_set l) else committed_set l - {i})"
  using assms by (auto simp: committed_set_def)

lemma producer_step_committed:
  assumes "producer_step i l = Some l'"
  shows "num_producers l' = num_producers l \<and>
         producer_pc l' = (producer_pc l)(i := producer_pc l' i) \<and>
         (committed (producer_pc l' i) \<longrightarrow> \<not> committed (producer_pc l i) \<longrightarrow>
            current_timestep l < total_timesteps l) \<and>
         (current_timestep l' = current_timestep l \<or>
          current_timestep l' = current_timestep l + 1 \<and>
          committed (producer_pc l i) \<and> \<not> committed (producer_pc l' i))"
  using assms[symmetric] unfolding producer_step_def should_continue_step_def set_ppc_def
  by (cases "producer_pc l i") (simp_all split: if_splits sc_pc.splits)

lemma other_step_committed:
  assumes "step l t = Some l'" "\<forall>i. t \<noteq> Producer i"
  shows "num_producers l' = num_producers l \<and> producer_pc l' = producer_pc l \<and>
         current_timestep l' = current_timestep l"
proof (cases t)
  case (Producer i)
  with assms(2) show ?thesis by simp
next
  case (Consumer i)
  with assms(1)[symmetric] show ?thesis
    unfolding step_defs
    by (cases "consumer_pc l i") (simp_all split: if_splits sc_pc.splits list.splits)
next
  case Main
  with assms(1)[symmetric] show ?thesis
    unfolding step_defs
    by (cases "main_pc l") (simp_all split: if_splits)
qed

lemma overshoot_ok_step:
  assumes "overshoot_ok l" "step l t = Some l'"
  shows "overshoot_ok l'"
proof (cases "\<exists>i. t = Producer i")
  case False
  then have "\<forall>i. t \<noteq> Producer i" by simp
  from other_step_committed[OF assms(2) this] step_config[OF assms(2)] assms(1)
  show ?thesis by (simp add: overshoot_ok_def committed_set_def same_config_def)
next
  case True
  then obtain i where t: "t = Producer i" by blast
  with assms(2) have sp: "int i < num_producers l" and ps: "producer_step i l = Some l'"
    by (simp_all add: step_def split: if_splits)
  note s = producer_step_committed[OF ps]
  note cf = step_config[OF assms(2)]
  from s have upd: "committed_set l' =
     (if committed (producer_pc l' i) then insert i (committed_set l) else committed_set l - {i})"
    by (intro committed_set_upd) (use sp in simp_all)
  note b = committed_set_bound[of l]
  have mem: "i \<in> committed_set l \<longleftrightarrow> committed (producer_pc l i)"
    using sp by (simp add: committed_set_def)
  show ?thesis
  proof (cases "committed (producer_pc l' i)")
    case True
    show ?thesis
    proof (cases "committed (producer_pc l i)")
      case True
      with \<open>committed (producer_pc l' i)\<close> upd mem have "committed_set l' = committed_set l"
        by auto
      with s True \<open>committed (producer_pc l' i)\<close> cf assms(1) show ?thesis
        by (auto simp: overshoot_ok_def same_config_def)
    next
      case False
      with s True cf show ?thesis
        by (auto simp: overshoot_ok_def same_config_def)
    qed
  next
    case False
    show ?thesis
    proof (cases "committed (producer_pc l i)")
      case True
      with mem have i: "i \<in> committed_set l" by simp
      from upd False have "committed_set l' = committed_set l - {i}" by simp
      with i b have c: "int (card (committed_set l')) = int (card (committed_set l)) - 1"
        by (simp add: card_Diff_singleton) (metis One_nat_def Suc_leI card_gt_0_iff empty_iff of_nat_1 of_nat_diff)
      from b sp have n: "int (card (committed_set l)) \<le> num_producers l" by simp
      from s cf c n assms(1) show ?thesis
        by (auto simp: overshoot_ok_def same_config_def)
    next
      case False
      with \<open>\<not> committed (producer_pc l' i)\<close> upd mem have "committed_set l' = committed_set l"
        by auto
      with s False \<open>\<not> committed (producer_pc l' i)\<close> cf assms(1) show ?thesis
        by (auto simp: overshoot_ok_def same_config_def)
    qed
  qed
qed

lemma overshoot_bound:
  assumes "reachable (new_line cap np nc tt) l" "1 \<le> tt"
  shows "current_timestep l \<le> tt + max 0 (np - 1)"
proof -
  have "overshoot_ok l"
    using assms(1)
  proof (induction rule: reachable.induct)
    case reach_init
    show ?case using assms(2) by (simp add: overshoot_ok_def new_line_def)
  next
    case (reach_step l t l')
    then show ?case by (auto intro: overshoot_ok_step)
  qed
  moreover have "total_timesteps l = tt" "num_producers l = np"
    using reachable_config[OF assms(1)] by (simp_all add: same_config_def new_line_def)
  ultimately show ?thesis
    by (auto simp: overshoot_ok_def)
qed

text \<open>
  C5: the upper bound fails. Two producers pass the check of line 127 while the timestep
  is 0; both then increment it, and the completed run ends with \<open>current_timestep = 2\<close>
  although \<open>total_timesteps = 1\<close>.
\<close>

theorem timestep_overshoot:
  "ProductionLine_init 10 2 3 1 False = Inr (new_line 10 2 3 1) \<and>
   map_option outcome (run (new_line 10 2 3 1)
     (replicate 7 (Producer 0) @ replicate 7 (Producer 1) @
      replicate 9 (Producer 0) @ replicate 9 (Producer 1) @
      replicate 3 (Producer 0) @ replicate 3 (Producer 1) @
      replicate 3 (Consumer 0) @ replicate 3 (Consumer 1) @ replicate 3 (Consumer 2) @
      replicate 17 Main)) = Some (True, 2, 2, 0, 2, 2)"
  by (simp add: ProductionLine_init_def outcome_def completed_def all_joined_def new_line_def
      numeral_eq_Suc step_defs)

subsection \<open>Snapshots\<close>

text \<open>
  Whenever no thread is inside the critical section, the number of snapshots is
  \<open>current_timestep // snapshot_interval\<close>: one snapshot for every timestep drawn that the
  interval divides.
\<close>

lemma div_step:
  fixes t I :: int
  assumes "0 < I"
  shows "t div I = (t - 1) div I + (if t mod I = 0 then 1 else 0)"
proof -
  define q r where "q = t div I" and "r = t mod I"
  have e: "t = q * I + r" unfolding q_def r_def by simp
  have r: "0 \<le> r" "r < I" unfolding r_def using assms by simp_all
  show ?thesis
  proof (cases "r = 0")
    case True
    have "(t - 1) div I = q - 1"
      by (rule div_between[OF assms]) (use e r True assms in \<open>simp_all add: algebra_simps\<close>)
    with True show ?thesis unfolding q_def r_def by simp
  next
    case False
    have "(t - 1) div I = q"
      by (rule div_between[OF assms]) (use e r False assms in \<open>simp_all add: algebra_simps\<close>)
    with False show ?thesis unfolding q_def r_def by simp
  qed
qed

lemma snap_ok_critical:
  assumes "step l t = Some l'" "holds_mutex (pc_of l t)" "holds_mutex (pc_of l' t)"
    "snap_ok (pc_of l t) l"
  shows "snap_ok (pc_of l' t) l'"
proof (cases t)
  case (Producer i)
  with assms(1)[symmetric] assms(2-) show ?thesis
    unfolding step_defs pc_of_def snap_ok_def
    by (cases "producer_pc l i")
       (simp_all add: div_step[of "snapshot_interval l" "current_timestep l"]
          split: if_splits sc_pc.splits)
next
  case (Consumer i)
  with assms(1)[symmetric] assms(2-) show ?thesis
    unfolding step_defs pc_of_def snap_ok_def
    by (cases "consumer_pc l i") (auto split: if_splits sc_pc.splits list.splits)
next
  case Main
  with assms(2) show ?thesis by (simp add: pc_of_def)
qed

lemma snap_ok_idle: "idle c \<Longrightarrow> idle c' \<Longrightarrow> snap_ok c l \<Longrightarrow> snap_ok c' l"
  by (cases c rule: idle.cases; cases c' rule: idle.cases) (simp_all add: snap_ok_def)

lemma snap_ok_data: "same_data l l' \<Longrightarrow> same_config l l' \<Longrightarrow> snap_ok c l \<Longrightarrow> snap_ok c l'"
  by (simp add: snap_ok_def same_data_def same_config_def)

lemma snap_ok_reachable:
  assumes "reachable (new_line cap np nc tt) l"
  shows "snap_ok (critical_pc l) l"
proof -
  from assms(1) obtain ps cs where ex: "execution (new_line cap np nc tt) l ps cs"
    by (auto dest: reachable_execution)
  show ?thesis
  proof (rule critical_induct[OF ex, where Q = "\<lambda>c l ps cs. snap_ok c l"])
    show "snap_ok (WP W_Done) (new_line cap np nc tt)"
      by (simp add: snap_ok_def new_line_def)
  qed (auto intro: snap_ok_critical snap_ok_idle snap_ok_data)
qed

lemma snapshot_count:
  assumes "reachable (new_line cap np nc tt) l" "mutex l = None"
  shows "snapshot_interval l = max 1 (tt div 100) \<and>
         int (length (buffer_snapshots (stats l))) = current_timestep l div snapshot_interval l"
proof -
  have "snapshot_interval l = snapshot_interval (new_line cap np nc tt)"
    using reachable_config[OF assms(1)] by (simp add: same_config_def)
  then have "snapshot_interval l = max 1 (tt div 100)" by (simp add: new_line_def)
  moreover have "int (length (buffer_snapshots (stats l))) =
      current_timestep l div snapshot_interval l"
    using snap_ok_reachable[OF assms(1)] critical_pc_free[OF assms(2)]
    by (simp add: snap_ok_def)
  ultimately show ?thesis by simp
qed

text \<open>
  C9: the count fails. With \<open>total_timesteps = 1\<close> the interval is 1 and the claimed number
  of snapshots is 1, give or take one; three producers pass the check of line 127 together,
  and the completed run has recorded 3 snapshots.
\<close>

theorem snapshot_count_overshoot:
  "ProductionLine_init 10 3 4 1 False = Inr (new_line 10 3 4 1) \<and>
   snapshot_interval (new_line 10 3 4 1) = 1 \<and>
   map_option outcome (run (new_line 10 3 4 1) overshoot_schedule) = Some (True, 3, 3, 0, 3, 3)"
  by (simp add: ProductionLine_init_def outcome_def overshoot_schedule_def run_defs)

end
